theory Spec2Isabelle
  imports Complex_Main "HOL-Library.Word" "HOL-Library.Log_Nat"
begin

section \<open>The entries: C \<^verbatim>\<open>double\<close> as IEEE-754 binary64\<close>

text \<open>
  A matrix entry is a C \<^verbatim>\<open>double\<close>. It is modelled by its three bit fields: one sign
  bit, eleven bits of biased exponent and fifty-two bits of fraction, so that every value
  of the type is one of the 2^64 bit patterns and there are no others. Arithmetic is the
  IEEE-754 arithmetic in the default rounding mode (to nearest, ties to even), each
  operation rounded once to binary64 (no extended intermediate precision, no fused
  multiply-add).
\<close>

datatype double = Double (sign_bit: bool) (expo: "11 word") (frac: "52 word")

definition is_nan :: "double \<Rightarrow> bool" where
  "is_nan x \<longleftrightarrow> expo x = 2047 \<and> frac x \<noteq> 0"

definition is_inf :: "double \<Rightarrow> bool" where
  "is_inf x \<longleftrightarrow> expo x = 2047 \<and> frac x = 0"

definition is_finite :: "double \<Rightarrow> bool" where
  "is_finite x \<longleftrightarrow> expo x \<noteq> 2047"

definition is_zero :: "double \<Rightarrow> bool" where
  "is_zero x \<longleftrightarrow> expo x = 0 \<and> frac x = 0"

text \<open>
  A finite double is \<open>(-1)^sign * mant * 2^expn\<close>: the significand \<open>mant\<close> has the hidden
  bit of a normal number, a subnormal number (biased exponent 0) has none and the
  exponent of the smallest normal number.
\<close>

definition mant :: "double \<Rightarrow> nat" where
  "mant x = (if expo x = 0 then unat (frac x) else 2 ^ 52 + unat (frac x))"

definition expn :: "double \<Rightarrow> int" where
  "expn x = (if expo x = 0 then - 1074 else uint (expo x) - 1075)"

text \<open>
  Which NaN an operation returns (its sign and payload) depends on the platform. The model
  returns the quiet NaN \<open>d_nan\<close> everywhere; no comparison tells one NaN from another, and
  nothing below depends on the choice.
\<close>

definition d_nan :: double where
  "d_nan = Double False 2047 (2 ^ 51)"

definition d_inf :: "bool \<Rightarrow> double" where
  "d_inf s = Double s 2047 0"

text \<open>\<open>round_even M sh\<close> is \<open>M / 2^sh\<close> rounded to the nearest natural number, a tie to the even one.\<close>

definition round_even :: "nat \<Rightarrow> nat \<Rightarrow> nat" where
  "round_even M sh =
     (let q = M div 2 ^ sh; r = M mod 2 ^ sh
      in if 2 ^ sh < 2 * r \<or> (2 * r = 2 ^ sh \<and> odd q) then q + 1 else q)"

text \<open>
  \<open>pack s M E\<close> is the double of sign \<open>s\<close> and magnitude \<open>M * 2^E\<close>, for \<open>M \<le> 2^53\<close> and
  \<open>E \<ge> -1074\<close>, where \<open>M < 2^52\<close> only at \<open>E = -1074\<close>. The 63 bits below the sign, read as
  a number, are \<open>(E + 1074) * 2^52 + M\<close>: a significand that rounding carried to \<open>2^53\<close>
  lands in the next exponent, and past the largest exponent the result is an infinity.
\<close>

definition pack :: "bool \<Rightarrow> nat \<Rightarrow> int \<Rightarrow> double" where
  "pack s M E =
     (let n = nat (E + 1074) * 2 ^ 52 + M
      in if 2047 * 2 ^ 52 \<le> n then d_inf s
         else Double s (of_nat (n div 2 ^ 52)) (of_nat (n mod 2 ^ 52)))"

text \<open>
  \<open>round_double s M E\<close> rounds the exact magnitude \<open>M * 2^E\<close> to binary64: the exponent
  \<open>E'\<close> of the last bit kept leaves 53 significant bits, or is the subnormal exponent.
\<close>

definition round_double :: "bool \<Rightarrow> nat \<Rightarrow> int \<Rightarrow> double" where
  "round_double s M E =
     (if M = 0 then Double s 0 0
      else let E' = max (E + bitlen (int M) - 53) (- 1074);
               M' = (if E' \<le> E then M * 2 ^ nat (E - E') else round_even M (nat (E' - E)))
           in pack s M' E')"

definition dmul :: "double \<Rightarrow> double \<Rightarrow> double" where
  "dmul x y =
     (if is_nan x \<or> is_nan y then d_nan
      else if is_inf x \<or> is_inf y then
        (if is_zero x \<or> is_zero y then d_nan else d_inf (sign_bit x \<noteq> sign_bit y))
      else round_double (sign_bit x \<noteq> sign_bit y) (mant x * mant y) (expn x + expn y))"

definition signed_mant :: "double \<Rightarrow> int \<Rightarrow> int" where
  "signed_mant x e = (if sign_bit x then - 1 else 1) * int (mant x) * 2 ^ nat (expn x - e)"

definition dadd :: "double \<Rightarrow> double \<Rightarrow> double" where
  "dadd x y =
     (if is_nan x \<or> is_nan y then d_nan
      else if is_inf x then (if is_inf y \<and> sign_bit x \<noteq> sign_bit y then d_nan else x)
      else if is_inf y then y
      else let e = min (expn x) (expn y);
               t = signed_mant x e + signed_mant y e
           in if t = 0 then Double (sign_bit x \<and> sign_bit y) 0 0
              else round_double (t < 0) (nat \<bar>t\<bar>) e)"

definition dneg :: "double \<Rightarrow> double" where
  "dneg x = Double (\<not> sign_bit x) (expo x) (frac x)"

definition dsub :: "double \<Rightarrow> double \<Rightarrow> double" where
  "dsub x y = dadd x (dneg y)"

definition fabs :: "double \<Rightarrow> double" where
  "fabs x = Double False (expo x) (frac x)"

text \<open>
  Comparison. On the doubles that are not NaN the order of the values is the order of
  the sign-magnitude numbers \<open>key\<close> (both zeros have key 0); a comparison with a NaN is
  false.
\<close>

definition key :: "double \<Rightarrow> int" where
  "key x = (if sign_bit x then - 1 else 1) * (uint (expo x) * 2 ^ 52 + uint (frac x))"

definition dgt :: "double \<Rightarrow> double \<Rightarrow> bool" where
  "dgt x y \<longleftrightarrow> \<not> is_nan x \<and> \<not> is_nan y \<and> key y < key x"

definition dle :: "double \<Rightarrow> double \<Rightarrow> bool" where
  "dle x y \<longleftrightarrow> \<not> is_nan x \<and> \<not> is_nan y \<and> key x \<le> key y"

definition deq :: "double \<Rightarrow> double \<Rightarrow> bool" where
  "deq x y \<longleftrightarrow> \<not> is_nan x \<and> \<not> is_nan y \<and> key x = key y"

text \<open>The conversion of an \<^verbatim>\<open>int\<close> to \<^verbatim>\<open>double\<close>, and the literals of the source.\<close>

definition double_of_int :: "int \<Rightarrow> double" where
  "double_of_int n = round_double (n < 0) (nat \<bar>n\<bar>) 0"

definition d_zero :: double where
  "d_zero = Double False 0 0"

definition d_one :: double where
  "d_one = Double False 1023 0"

text \<open>\<^verbatim>\<open>1e-9\<close>: the double nearest to \<open>10^-9\<close> has the bits \<^verbatim>\<open>0x3E112E0BE826D695\<close>.\<close>

definition eps :: double where
  "eps = Double False 993 332103651088021"


section \<open>The matrix library\<close>

text \<open>
  \<^verbatim>\<open>#define MAX 10\<close> (here \<open>MAX_DIM\<close>) and \<^verbatim>\<open>typedef struct { int rows, cols; double data[MAX][MAX]; } Matrix\<close>.
  The backing array is a function on the index pairs; a cell that was never written holds
  an indeterminate value, \<open>None\<close>. The fields \<open>rows\<close> and \<open>cols\<close> are C \<^verbatim>\<open>int\<close>s; every
  loop counts upwards from 0 to one of them, so no counter overflows and they are
  modelled as unbounded integers.
\<close>

definition MAX_DIM :: nat where
  "MAX_DIM = 10"

record Matrix =
  rows :: int
  cols :: int
  data :: "nat \<times> nat \<Rightarrow> double option"

text \<open>
  The source has no error channel: a function returns its result or, when an index leaves
  \<^verbatim>\<open>data[MAX][MAX]\<close>, has undefined behaviour. \<open>OutOfBounds\<close> marks those runs;
  \<open>Indeterminate\<close> marks a branch taken on an indeterminate value.
\<close>

datatype fault = OutOfBounds | Indeterminate

definition and_then :: "fault + 'a \<Rightarrow> ('a \<Rightarrow> fault + 'b) \<Rightarrow> fault + 'b" where
  "and_then r f = (case r of Inl e \<Rightarrow> Inl e | Inr v \<Rightarrow> f v)"

text \<open>\<^verbatim>\<open>m->data[i][j]\<close> read and written.\<close>

definition rd :: "Matrix \<Rightarrow> nat \<Rightarrow> nat \<Rightarrow> fault + double option" where
  "rd m i j = (if i < MAX_DIM \<and> j < MAX_DIM then Inr (data m (i, j)) else Inl OutOfBounds)"

definition wr :: "Matrix \<Rightarrow> nat \<Rightarrow> nat \<Rightarrow> double option \<Rightarrow> fault + Matrix" where
  "wr m i j v =
     (if i < MAX_DIM \<and> j < MAX_DIM then Inr (m\<lparr>data := (data m)((i, j) := v)\<rparr>) else Inl OutOfBounds)"

text \<open>An operation on cells: an indeterminate operand gives an indeterminate result.\<close>

definition lift2 :: "(double \<Rightarrow> double \<Rightarrow> double) \<Rightarrow> double option \<Rightarrow> double option \<Rightarrow> double option" where
  "lift2 f x y = (case x of None \<Rightarrow> None | Some u \<Rightarrow> (case y of None \<Rightarrow> None | Some v \<Rightarrow> Some (f u v)))"

text \<open>\<^verbatim>\<open>for (int i = 0; i < n; i++) body\<close>: the body runs for i = 0, 1, ... in turn on the state.\<close>

primrec for_each :: "nat list \<Rightarrow> (nat \<Rightarrow> 's \<Rightarrow> fault + 's) \<Rightarrow> 's \<Rightarrow> fault + 's" where
  "for_each [] body s = Inr s"
| "for_each (k # ks) body s = (case body k s of Inl e \<Rightarrow> Inl e | Inr s' \<Rightarrow> for_each ks body s')"

definition for_upto :: "int \<Rightarrow> (nat \<Rightarrow> 's \<Rightarrow> fault + 's) \<Rightarrow> 's \<Rightarrow> fault + 's" where
  "for_upto n body s = for_each [0..<nat n] body s"

definition create_matrix :: "int \<Rightarrow> int \<Rightarrow> fault + Matrix" where
  "create_matrix r c =
     for_upto r (\<lambda>i. for_upto c (\<lambda>j m. wr m i j (Some (double_of_int 0))))
       \<lparr>rows = r, cols = c, data = (\<lambda>_. None)\<rparr>"

definition add :: "Matrix \<Rightarrow> Matrix \<Rightarrow> fault + Matrix" where
  "add a b =
     and_then (create_matrix (rows a) (cols a)) (\<lambda>result.
       for_upto (rows a) (\<lambda>i. for_upto (cols a) (\<lambda>j res.
         and_then (rd a i j) (\<lambda>x. and_then (rd b i j) (\<lambda>y.
           wr res i j (lift2 dadd x y))))) result)"

definition subtract :: "Matrix \<Rightarrow> Matrix \<Rightarrow> fault + Matrix" where
  "subtract a b =
     and_then (create_matrix (rows a) (cols a)) (\<lambda>result.
       for_upto (rows a) (\<lambda>i. for_upto (cols a) (\<lambda>j res.
         and_then (rd a i j) (\<lambda>x. and_then (rd b i j) (\<lambda>y.
           wr res i j (lift2 dsub x y))))) result)"

definition multiply :: "Matrix \<Rightarrow> Matrix \<Rightarrow> fault + Matrix" where
  "multiply a b =
     and_then (create_matrix (rows a) (cols b)) (\<lambda>result.
       for_upto (rows a) (\<lambda>i. for_upto (cols b) (\<lambda>j. for_upto (cols a) (\<lambda>k res.
         and_then (rd res i j) (\<lambda>acc. and_then (rd a i k) (\<lambda>x. and_then (rd b k j) (\<lambda>y.
           wr res i j (lift2 dadd acc (lift2 dmul x y)))))))) result)"

definition transpose_m :: "Matrix \<Rightarrow> fault + Matrix" where
  "transpose_m m =
     and_then (create_matrix (cols m) (rows m)) (\<lambda>result.
       for_upto (rows m) (\<lambda>i. for_upto (cols m) (\<lambda>j res.
         and_then (rd m i j) (\<lambda>x. wr res j i x))) result)"

definition scalar_multiply :: "Matrix \<Rightarrow> double \<Rightarrow> fault + Matrix" where
  "scalar_multiply m scalar =
     and_then (create_matrix (rows m) (cols m)) (\<lambda>result.
       for_upto (rows m) (\<lambda>i. for_upto (cols m) (\<lambda>j res.
         and_then (rd m i j) (\<lambda>x. wr res i j (lift2 dmul x (Some scalar))))) result)"

text \<open>\<^verbatim>\<open>determinant_2x2\<close> reads the four cells whatever \<open>rows\<close> and \<open>cols\<close> are.\<close>

definition determinant_2x2 :: "Matrix \<Rightarrow> fault + double option" where
  "determinant_2x2 m =
     and_then (rd m 0 0) (\<lambda>a. and_then (rd m 1 1) (\<lambda>d.
     and_then (rd m 0 1) (\<lambda>b. and_then (rd m 1 0) (\<lambda>c.
       Inr (lift2 dsub (lift2 dmul a d) (lift2 dmul b c))))))"

definition trace :: "Matrix \<Rightarrow> fault + double option" where
  "trace m =
     (let mn = (if rows m < cols m then rows m else cols m)
      in for_upto mn (\<lambda>i sum. and_then (rd m i i) (\<lambda>x. Inr (lift2 dadd sum x)))
           (Some (double_of_int 0)))"

text \<open>
  \<^verbatim>\<open>is_symmetric\<close> returns from inside its loops. The state of the loops is the value
  returned so far, if any; once it is there the remaining iterations do nothing.
  \<open>symmetric_step\<close> is the statement of the inner loop,
  \<^verbatim>\<open>if (fabs(m->data[i][j] - m->data[j][i]) > 1e-9) return 0;\<close>.
\<close>

definition symmetric_step :: "Matrix \<Rightarrow> nat \<Rightarrow> nat \<Rightarrow> int option \<Rightarrow> fault + int option" where
  "symmetric_step m i j ret =
     (case ret of
        Some r \<Rightarrow> Inr (Some r)
      | None \<Rightarrow>
          and_then (rd m i j) (\<lambda>x. and_then (rd m j i) (\<lambda>y.
            case lift2 dsub x y of
              None \<Rightarrow> Inl Indeterminate
            | Some d \<Rightarrow> Inr (if dgt (fabs d) eps then Some 0 else None))))"

definition is_symmetric :: "Matrix \<Rightarrow> fault + int" where
  "is_symmetric m =
     (if rows m \<noteq> cols m then Inr 0
      else and_then
        (for_upto (rows m) (\<lambda>i. for_upto (cols m) (symmetric_step m i)) None)
        (\<lambda>ret. Inr (case ret of Some r \<Rightarrow> r | None \<Rightarrow> 1)))"

definition identity :: "int \<Rightarrow> fault + Matrix" where
  "identity n =
     and_then (create_matrix n n) (\<lambda>m. for_upto n (\<lambda>i m. wr m i i (Some d_one)) m)"


section \<open>The demonstration run\<close>

text \<open>
  \<^verbatim>\<open>main\<close> builds two \<open>3 \<times> 3\<close> matrices and a \<open>2 \<times> 2\<close> matrix from literals and prints
  the results of the operations on them. The printing is not modelled.
\<close>

definition vals_a :: "int list list" where
  "vals_a = [[1, 2, 3], [4, 5, 6], [7, 8, 9]]"

definition vals_b :: "int list list" where
  "vals_b = [[9, 8, 7], [6, 5, 4], [3, 2, 1]]"

text \<open>The loops of \<^verbatim>\<open>main\<close> that copy \<^verbatim>\<open>vals_a\<close> and \<^verbatim>\<open>vals_b\<close> into a matrix.\<close>

definition assign :: "int list list \<Rightarrow> Matrix \<Rightarrow> fault + Matrix" where
  "assign vals m =
     for_upto 3 (\<lambda>i. for_upto 3 (\<lambda>j m. wr m i j (Some (double_of_int (vals ! i ! j))))) m"

definition main_a :: "fault + Matrix" where
  "main_a = and_then (create_matrix 3 3) (assign vals_a)"

definition main_b :: "fault + Matrix" where
  "main_b = and_then (create_matrix 3 3) (assign vals_b)"

definition main_small :: "fault + Matrix" where
  "main_small =
     and_then (create_matrix 2 2) (\<lambda>small.
     and_then (wr small 0 0 (Some (double_of_int 3))) (\<lambda>small.
     and_then (wr small 0 1 (Some (double_of_int 8))) (\<lambda>small.
     and_then (wr small 1 0 (Some (double_of_int 4))) (\<lambda>small.
     wr small 1 1 (Some (double_of_int 6))))))"

text \<open>The logical entries of a result, row by row, and the numbers they are compared with.\<close>

definition entries :: "fault + Matrix \<Rightarrow> fault + double option list list" where
  "entries r =
     map_sum id (\<lambda>m. map (\<lambda>i. map (\<lambda>j. data m (i, j)) [0..<nat (cols m)]) [0..<nat (rows m)]) r"

definition numbers :: "int list list \<Rightarrow> fault + double option list list" where
  "numbers xss = Inr (map (map (\<lambda>x. Some (double_of_int x))) xss)"

section \<open>Notions of the specification\<close>

text \<open>
  The matrix that \<^verbatim>\<open>main\<close> builds with \<^verbatim>\<open>create_matrix(r, c)\<close> followed by the assignments
  \<^verbatim>\<open>data[i][j] = f i j\<close> of every logical cell: the cells outside stay indeterminate.
\<close>

definition filled :: "int \<Rightarrow> int \<Rightarrow> (nat \<Rightarrow> nat \<Rightarrow> double) \<Rightarrow> Matrix" where
  "filled r c f =
     \<lparr>rows = r, cols = c,
      data = (\<lambda>p. if fst p < nat r \<and> snd p < nat c then Some (f (fst p) (snd p)) else None)\<rparr>"

text \<open>
  The invariant of the data model: \<open>0 < rows \<le> MAX\<close>, \<open>0 < cols \<le> MAX\<close>, and every logical
  entry has been written.
\<close>

definition valid_matrix :: "Matrix \<Rightarrow> bool" where
  "valid_matrix m \<longleftrightarrow>
     0 < rows m \<and> rows m \<le> int MAX_DIM \<and> 0 < cols m \<and> cols m \<le> int MAX_DIM \<and>
     (\<forall>i j. i < nat (rows m) \<and> j < nat (cols m) \<longrightarrow> data m (i, j) \<noteq> None)"

text \<open>Every logical entry is a finite number: no infinity and no NaN.\<close>

definition finite_entries :: "Matrix \<Rightarrow> bool" where
  "finite_entries m \<longleftrightarrow>
     (\<forall>i j x. i < nat (rows m) \<and> j < nat (cols m) \<and> data m (i, j) = Some x \<longrightarrow> is_finite x)"

text \<open>
  The sum of \<open>f 0, ..., f (n - 1)\<close> accumulated in ascending order from \<open>0.0\<close>, each
  addition rounded.
\<close>

primrec ascending_sum :: "(nat \<Rightarrow> double option) \<Rightarrow> nat \<Rightarrow> double option" where
  "ascending_sum f 0 = Some d_zero"
| "ascending_sum f (Suc n) = lift2 dadd (ascending_sum f n) (f n)"

text \<open>\<open>|x - y| \<le> 1e-9\<close> and \<open>|x - y| > 1e-9\<close> on two cells, as the doubles compare.\<close>

definition within_tolerance :: "double option \<Rightarrow> double option \<Rightarrow> bool" where
  "within_tolerance x y = (case lift2 dsub x y of None \<Rightarrow> False | Some d \<Rightarrow> dle (fabs d) eps)"

definition beyond_tolerance :: "double option \<Rightarrow> double option \<Rightarrow> bool" where
  "beyond_tolerance x y = (case lift2 dsub x y of None \<Rightarrow> False | Some d \<Rightarrow> dgt (fabs d) eps)"

text \<open>
  Equality of two matrices: the same shape and every logical entry equal, as \<^verbatim>\<open>==\<close>
  compares doubles.
\<close>

definition cell_eq :: "double option \<Rightarrow> double option \<Rightarrow> bool" where
  "cell_eq x y = (case x of None \<Rightarrow> False | Some u \<Rightarrow> (case y of None \<Rightarrow> False | Some v \<Rightarrow> deq u v))"

definition mat_eq :: "Matrix \<Rightarrow> Matrix \<Rightarrow> bool" where
  "mat_eq a b \<longleftrightarrow>
     rows a = rows b \<and> cols a = cols b \<and>
     (\<forall>i j. i < nat (rows a) \<and> j < nat (cols a) \<longrightarrow> cell_eq (data a (i, j)) (data b (i, j)))"

text \<open>
  Two doubles denote the same number when they are the same double or are both zeros
  (\<open>+0.0\<close> and \<open>-0.0\<close>).
\<close>

definition same_number :: "double \<Rightarrow> double \<Rightarrow> bool" where
  "same_number a b \<longleftrightarrow> a = b \<or> (is_zero a \<and> is_zero b)"

section \<open>Evaluating the arithmetic\<close>

lemmas float_eval = dmul_def dadd_def dsub_def dneg_def fabs_def dgt_def dle_def deq_def key_def
  is_nan_def is_inf_def is_zero_def is_finite_def mant_def expn_def signed_mant_def
  round_double_def round_even_def pack_def d_inf_def d_nan_def d_zero_def d_one_def eps_def
  double_of_int_def Let_def

lemma bitlen_numeral [simp]: "bitlen (numeral n) = bitlen (numeral n div 2) + 1"
  by (subst compute_bitlen) simp

lemma bitlen_one [simp]: "bitlen 1 = 1"
  by (subst compute_bitlen) simp

text \<open>
  Four roundings: \<open>0.1 + 0.2\<close> is \<open>0.30000000000000004\<close>; \<open>1e308 * 10\<close> overflows to
  \<open>+inf\<close>; half of the smallest subnormal number is a tie and rounds to the even \<open>0.0\<close>; and
  \<open>2^53 + 1\<close> is a tie and rounds to the even \<open>2^53\<close>.
\<close>

lemma rounding_examples:
  "dadd (Double False 1019 2702159776422298) (Double False 1020 2702159776422298) =
     Double False 1021 900719925474100"
  "dmul (Double False 2046 506821272651936) (Double False 1026 1125899906842624) = d_inf False"
  "dmul (Double False 0 1) (Double False 1022 0) = Double False 0 0"
  "dadd (double_of_int 9007199254740992) (double_of_int 1) = double_of_int 9007199254740992"
  by (simp_all add: float_eval)

lemma d_zero_is_int_0: "double_of_int 0 = d_zero"
  by (simp add: double_of_int_def round_double_def d_zero_def)

section \<open>Loops\<close>

lemma and_then_Inr [simp]: "and_then (Inr v) f = f v"
  by (simp add: and_then_def)

lemma and_then_Inl [simp]: "and_then (Inl e) f = Inl e"
  by (simp add: and_then_def)

lemma data_update_cong: "F = G \<Longrightarrow> m\<lparr>data := F\<rparr> = m\<lparr>data := G\<rparr>"
  by simp

lemma wr_in_range:
  "i < MAX_DIM \<Longrightarrow> j < MAX_DIM \<Longrightarrow>
     wr m i j v = Inr (m\<lparr>data := (\<lambda>p. if p = (i, j) then v else data m p)\<rparr>)"
  unfolding wr_def by (auto intro!: data_update_cong)

lemma rd_in_range: "i < MAX_DIM \<Longrightarrow> j < MAX_DIM \<Longrightarrow> rd m i j = Inr (data m (i, j))"
  by (simp add: rd_def)

lemma for_each_append:
  "for_each (xs @ ys) body s = and_then (for_each xs body s) (for_each ys body)"
  by (induction xs arbitrary: s) (auto split: sum.splits)

lemma for_each_single: "for_each [k] body = body k"
  by (rule ext) (simp split: sum.splits)

lemma for_each_snoc:
  "for_each [0..<Suc n] body s = and_then (for_each [0..<n] body s) (body n)"
  by (simp add: for_each_append for_each_single del: for_each.simps)

lemma for_each_cong:
  assumes "\<And>k s. k \<in> set ks \<Longrightarrow> body k s = body' k s"
  shows "for_each ks body s = for_each ks body' s"
  using assms by (induction ks arbitrary: s) (auto split: sum.splits)

lemma cell_loop:
  assumes "\<And>k res. k < n \<Longrightarrow>
             body k res = Inr (res\<lparr>data := (\<lambda>q. if q = p then g k (data res p) else data res q)\<rparr>)"
  shows "for_each [0..<n] body m =
           Inr (m\<lparr>data := (\<lambda>q. if q = p then foldl (\<lambda>acc k. g k acc) (data m p) [0..<n]
                                else data m q)\<rparr>)"
  using assms
proof (induction n)
  case 0
  have "m\<lparr>data := (\<lambda>q. if q = p then foldl (\<lambda>acc k. g k acc) (data m p) [0..<0]
                         else data m q)\<rparr> = m\<lparr>data := data m\<rparr>"
    by (rule data_update_cong) auto
  then show ?case by simp
next
  case (Suc n)
  have "for_each [0..<n] body m =
          Inr (m\<lparr>data := (\<lambda>q. if q = p then foldl (\<lambda>acc k. g k acc) (data m p) [0..<n]
                                else data m q)\<rparr>)"
    using Suc by simp
  then show ?case
    by (simp add: for_each_snoc Suc.prems del: upt_Suc) (auto intro!: data_update_cong)
qed

lemma row_loop:
  assumes "\<And>j res. j < c \<Longrightarrow>
             body j res = Inr (res\<lparr>data := (\<lambda>q. if q = (i, j) then h j (data res (i, j)) else data res q)\<rparr>)"
  shows "for_each [0..<c] body m =
           Inr (m\<lparr>data := (\<lambda>p. if fst p = i \<and> snd p < c then h (snd p) (data m p) else data m p)\<rparr>)"
  using assms
proof (induction c)
  case 0
  show ?case by simp
next
  case (Suc c)
  have "for_each [0..<c] body m =
          Inr (m\<lparr>data := (\<lambda>p. if fst p = i \<and> snd p < c then h (snd p) (data m p) else data m p)\<rparr>)"
    using Suc by simp
  then show ?case
    by (simp add: for_each_snoc Suc.prems del: upt_Suc)
       (auto intro!: data_update_cong simp add: fun_eq_iff less_Suc_eq)
qed

lemma grid_loop:
  assumes "\<And>i j res. i < r \<Longrightarrow> j < c \<Longrightarrow>
             body i j res = Inr (res\<lparr>data := (\<lambda>q. if q = (i, j) then h i j (data res (i, j)) else data res q)\<rparr>)"
  shows "for_each [0..<r] (\<lambda>i. for_each [0..<c] (body i)) m =
           Inr (m\<lparr>data := (\<lambda>p. if fst p < r \<and> snd p < c
                                then h (fst p) (snd p) (data m p) else data m p)\<rparr>)"
  using assms
proof (induction r)
  case 0
  show ?case by simp
next
  case (Suc r)
  have "for_each [0..<r] (\<lambda>i. for_each [0..<c] (body i)) m =
          Inr (m\<lparr>data := (\<lambda>p. if fst p < r \<and> snd p < c
                               then h (fst p) (snd p) (data m p) else data m p)\<rparr>)"
    using Suc by simp
  moreover have "for_each [0..<c] (body r) m' =
          Inr (m'\<lparr>data := (\<lambda>p. if fst p = r \<and> snd p < c
                               then h r (snd p) (data m' p) else data m' p)\<rparr>)" for m'
    by (rule row_loop) (simp add: Suc.prems)
  ultimately show ?case
    by (simp add: for_each_snoc del: upt_Suc)
       (auto intro!: data_update_cong simp add: fun_eq_iff less_Suc_eq)
qed

lemma grid_loop_swapped:
  assumes "\<And>i j res. i < r \<Longrightarrow> j < c \<Longrightarrow>
             body i j res = Inr (res\<lparr>data := (\<lambda>q. if q = (j, i) then v i j else data res q)\<rparr>)"
  shows "for_each [0..<r] (\<lambda>i. for_each [0..<c] (body i)) m =
           Inr (m\<lparr>data := (\<lambda>p. if snd p < r \<and> fst p < c
                                then v (snd p) (fst p) else data m p)\<rparr>)"
  using assms
proof (induction r)
  case 0
  show ?case by simp
next
  case (Suc r)
  have outer: "for_each [0..<r] (\<lambda>i. for_each [0..<c] (body i)) m =
          Inr (m\<lparr>data := (\<lambda>p. if snd p < r \<and> fst p < c
                               then v (snd p) (fst p) else data m p)\<rparr>)"
    using Suc by simp
  have step: "body r j res = Inr (res\<lparr>data := (\<lambda>q. if q = (j, r) then v r j else data res q)\<rparr>)"
    if "j < c" for j res
    using that by (simp add: Suc.prems)
  have inner: "for_each [0..<n] (body r) m' =
          Inr (m'\<lparr>data := (\<lambda>p. if snd p = r \<and> fst p < n
                               then v r (fst p) else data m' p)\<rparr>)" if "n \<le> c" for m' n
    using that
  proof (induction n)
    case 0
    show ?case by simp
  next
    case (Suc n)
    then have "for_each [0..<n] (body r) m' =
          Inr (m'\<lparr>data := (\<lambda>p. if snd p = r \<and> fst p < n
                               then v r (fst p) else data m' p)\<rparr>)"
      by simp
    moreover have "n < c" using Suc.prems by simp
    ultimately show ?case
      by (simp add: for_each_snoc step del: upt_Suc)
         (auto intro!: data_update_cong simp add: fun_eq_iff less_Suc_eq)
  qed
  show ?case
    using outer inner [of c]
    by (simp add: for_each_snoc del: upt_Suc)
       (auto intro!: data_update_cong simp add: fun_eq_iff less_Suc_eq)
qed


lemma for_upto_eq: "for_upto n body = for_each [0..<nat n] body"
  by (rule ext) (simp add: for_upto_def)

lemma for_each_pure:
  assumes "\<And>k s. k \<in> set ks \<Longrightarrow> body k s = Inr (f k s)"
  shows "for_each ks body s = Inr (foldl (\<lambda>s k. f k s) s ks)"
  using assms by (induction ks arbitrary: s) simp_all

lemma create_matrix_eq:
  assumes "r \<le> int MAX_DIM" and "c \<le> int MAX_DIM"
  shows "create_matrix r c =
           Inr \<lparr>rows = r, cols = c,
                data = (\<lambda>p. if fst p < nat r \<and> snd p < nat c then Some d_zero else None)\<rparr>"
proof -
  have "for_each [0..<nat r] (\<lambda>i. for_each [0..<nat c] (\<lambda>j m. wr m i j (Some (double_of_int 0)))) m =
          Inr (m\<lparr>data := (\<lambda>p. if fst p < nat r \<and> snd p < nat c then Some d_zero else data m p)\<rparr>)"
    for m
    using assms by (intro grid_loop) (simp add: wr_in_range d_zero_is_int_0)
  then show ?thesis
    by (auto simp add: create_matrix_def for_upto_eq fun_eq_iff)
qed

text \<open>
  Beyond the capacity nothing is signalled either: the eleventh iteration of
  \<^verbatim>\<open>create_matrix(MAX + 1, 1)\<close> writes \<^verbatim>\<open>data[10][0]\<close>, outside the array, where the behaviour
  of the C program is undefined.
\<close>

lemma create_matrix_beyond_capacity: "create_matrix 11 1 = Inl OutOfBounds"
  by (simp add: create_matrix_def for_upto_def wr_def MAX_DIM_def upt_rec)

lemma pointwise_eq:
  assumes "rows a \<le> int MAX_DIM" and "cols a \<le> int MAX_DIM"
  shows "and_then (create_matrix (rows a) (cols a)) (\<lambda>result.
           for_upto (rows a) (\<lambda>i. for_upto (cols a) (\<lambda>j res.
             and_then (rd a i j) (\<lambda>x. and_then (rd b i j) (\<lambda>y. wr res i j (f x y))))) result) =
         Inr \<lparr>rows = rows a, cols = cols a,
              data = (\<lambda>p. if fst p < nat (rows a) \<and> snd p < nat (cols a)
                           then f (data a p) (data b p) else None)\<rparr>"
proof -
  have "for_each [0..<nat (rows a)] (\<lambda>i. for_each [0..<nat (cols a)] (\<lambda>j res.
             and_then (rd a i j) (\<lambda>x. and_then (rd b i j) (\<lambda>y. wr res i j (f x y))))) m =
          Inr (m\<lparr>data := (\<lambda>p. if fst p < nat (rows a) \<and> snd p < nat (cols a)
                               then f (data a (fst p, snd p)) (data b (fst p, snd p)) else data m p)\<rparr>)"
    for m
    using assms by (intro grid_loop) (simp add: wr_in_range rd_in_range)
  then show ?thesis
    using assms by (auto simp add: create_matrix_eq for_upto_eq fun_eq_iff)
qed

lemma add_eq:
  assumes "rows a \<le> int MAX_DIM" and "cols a \<le> int MAX_DIM"
  shows "add a b =
           Inr \<lparr>rows = rows a, cols = cols a,
                data = (\<lambda>p. if fst p < nat (rows a) \<and> snd p < nat (cols a)
                             then lift2 dadd (data a p) (data b p) else None)\<rparr>"
  unfolding add_def using assms by (rule pointwise_eq)

lemma subtract_eq:
  assumes "rows a \<le> int MAX_DIM" and "cols a \<le> int MAX_DIM"
  shows "subtract a b =
           Inr \<lparr>rows = rows a, cols = cols a,
                data = (\<lambda>p. if fst p < nat (rows a) \<and> snd p < nat (cols a)
                             then lift2 dsub (data a p) (data b p) else None)\<rparr>"
  unfolding subtract_def using assms by (rule pointwise_eq)

lemma scalar_multiply_eq:
  assumes "rows m \<le> int MAX_DIM" and "cols m \<le> int MAX_DIM"
  shows "scalar_multiply m k =
           Inr \<lparr>rows = rows m, cols = cols m,
                data = (\<lambda>p. if fst p < nat (rows m) \<and> snd p < nat (cols m)
                             then lift2 dmul (data m p) (Some k) else None)\<rparr>"
proof -
  have "for_each [0..<nat (rows m)] (\<lambda>i. for_each [0..<nat (cols m)] (\<lambda>j res.
             and_then (rd m i j) (\<lambda>x. wr res i j (lift2 dmul x (Some k))))) r =
          Inr (r\<lparr>data := (\<lambda>p. if fst p < nat (rows m) \<and> snd p < nat (cols m)
                               then lift2 dmul (data m (fst p, snd p)) (Some k) else data r p)\<rparr>)"
    for r
    using assms by (intro grid_loop) (simp add: wr_in_range rd_in_range)
  then show ?thesis
    using assms by (auto simp add: scalar_multiply_def create_matrix_eq for_upto_eq fun_eq_iff)
qed

lemma transpose_eq:
  assumes "rows m \<le> int MAX_DIM" and "cols m \<le> int MAX_DIM"
  shows "transpose_m m =
           Inr \<lparr>rows = cols m, cols = rows m,
                data = (\<lambda>p. if fst p < nat (cols m) \<and> snd p < nat (rows m)
                             then data m (snd p, fst p) else None)\<rparr>"
proof -
  have "for_each [0..<nat (rows m)] (\<lambda>i. for_each [0..<nat (cols m)] (\<lambda>j res.
             and_then (rd m i j) (\<lambda>x. wr res j i x))) r =
          Inr (r\<lparr>data := (\<lambda>p. if snd p < nat (rows m) \<and> fst p < nat (cols m)
                               then data m (snd p, fst p) else data r p)\<rparr>)"
    for r
    using assms by (intro grid_loop_swapped) (simp add: wr_in_range rd_in_range)
  then show ?thesis
    using assms by (auto simp add: transpose_m_def create_matrix_eq for_upto_eq fun_eq_iff)
qed

text \<open>The accumulation of entry (i, j) of a product, in ascending k from 0.\<close>

lemma multiply_eq:
  assumes "rows a \<le> int MAX_DIM" and "cols a \<le> int MAX_DIM" and "cols b \<le> int MAX_DIM"
  shows "multiply a b =
           Inr \<lparr>rows = rows a, cols = cols b,
                data = (\<lambda>p. if fst p < nat (rows a) \<and> snd p < nat (cols b)
                             then foldl (\<lambda>acc k. lift2 dadd acc (lift2 dmul (data a (fst p, k)) (data b (k, snd p))))
                                    (Some d_zero) [0..<nat (cols a)]
                             else None)\<rparr>"
proof -
  let ?g = "\<lambda>i j k acc. lift2 dadd acc (lift2 dmul (data a (i, k)) (data b (k, j)))"
  have cell: "for_each [0..<nat (cols a)] (\<lambda>k res.
         and_then (rd res i j) (\<lambda>acc. and_then (rd a i k) (\<lambda>x. and_then (rd b k j) (\<lambda>y.
           wr res i j (lift2 dadd acc (lift2 dmul x y)))))) res =
        Inr (res\<lparr>data := (\<lambda>q. if q = (i, j)
               then foldl (\<lambda>acc k. ?g i j k acc) (data res (i, j)) [0..<nat (cols a)]
               else data res q)\<rparr>)"
    if "i < nat (rows a)" and "j < nat (cols b)" for i j res
    using that assms by (intro cell_loop) (simp add: wr_in_range rd_in_range)
  have "for_each [0..<nat (rows a)] (\<lambda>i. for_each [0..<nat (cols b)] (\<lambda>j.
          for_each [0..<nat (cols a)] (\<lambda>k res.
         and_then (rd res i j) (\<lambda>acc. and_then (rd a i k) (\<lambda>x. and_then (rd b k j) (\<lambda>y.
           wr res i j (lift2 dadd acc (lift2 dmul x y)))))))) r =
          Inr (r\<lparr>data := (\<lambda>p. if fst p < nat (rows a) \<and> snd p < nat (cols b)
                 then foldl (\<lambda>acc k. ?g (fst p) (snd p) k acc) (data r p) [0..<nat (cols a)]
                 else data r p)\<rparr>)"
    for r
    by (intro grid_loop) (simp add: cell)
  then show ?thesis
    using assms by (auto simp add: multiply_def create_matrix_eq for_upto_eq fun_eq_iff)
qed

lemma identity_eq:
  assumes "n \<le> int MAX_DIM"
  shows "identity n =
           Inr \<lparr>rows = n, cols = n,
                data = (\<lambda>p. if fst p < nat n \<and> snd p < nat n
                             then Some (if fst p = snd p then d_one else d_zero) else None)\<rparr>"
proof -
  have "for_each [0..<k] (\<lambda>i m. wr m i i (Some d_one)) m =
          Inr (m\<lparr>data := (\<lambda>p. if fst p = snd p \<and> fst p < k then Some d_one else data m p)\<rparr>)"
    if "k \<le> MAX_DIM" for m k
    using that
  proof (induction k)
    case 0
    have "m\<lparr>data := (\<lambda>p. if fst p = snd p \<and> fst p < 0 then Some d_one else data m p)\<rparr> = m\<lparr>data := data m\<rparr>"
      by (rule data_update_cong) auto
    then show ?case by simp
  next
    case (Suc k)
    then have "for_each [0..<k] (\<lambda>i m. wr m i i (Some d_one)) m =
          Inr (m\<lparr>data := (\<lambda>p. if fst p = snd p \<and> fst p < k then Some d_one else data m p)\<rparr>)"
      by simp
    moreover have "k < MAX_DIM" using Suc.prems by simp
    ultimately show ?case
      by (simp add: for_each_snoc wr_in_range del: upt_Suc)
         (auto intro!: data_update_cong simp add: fun_eq_iff less_Suc_eq)
  qed
  from this [of "nat n"] show ?thesis
    using assms by (auto simp add: identity_def create_matrix_eq for_upto_eq fun_eq_iff)
qed

lemma trace_loop:
  assumes "n \<le> int MAX_DIM"
  shows "for_upto n (\<lambda>i sum. and_then (rd m i i) (\<lambda>x. Inr (lift2 dadd sum x))) s =
           Inr (foldl (\<lambda>acc i. lift2 dadd acc (data m (i, i))) s [0..<nat n])"
  unfolding for_upto_def using assms by (intro for_each_pure) (auto simp add: rd_in_range)

lemma trace_eq:
  assumes "rows m \<le> int MAX_DIM \<or> cols m \<le> int MAX_DIM"
  shows "trace m = Inr (foldl (\<lambda>acc i. lift2 dadd acc (data m (i, i))) (Some d_zero)
                          [0..<nat (min (rows m) (cols m))])"
proof -
  have mn: "(if rows m < cols m then rows m else cols m) = min (rows m) (cols m)"
    by (simp add: min_def)
  have "min (rows m) (cols m) \<le> int MAX_DIM"
    using assms by auto
  then show ?thesis
    unfolding trace_def Let_def mn by (simp add: trace_loop d_zero_is_int_0)
qed


lemma create_matrix_filled:
  "r \<le> int MAX_DIM \<Longrightarrow> c \<le> int MAX_DIM \<Longrightarrow> create_matrix r c = Inr (filled r c (\<lambda>i j. d_zero))"
  by (simp add: create_matrix_eq filled_def)

lemma identity_filled:
  "n \<le> int MAX_DIM \<Longrightarrow> identity n = Inr (filled n n (\<lambda>i j. if i = j then d_one else d_zero))"
  by (simp add: identity_eq filled_def)

section \<open>Cells, sums and the matrices of the examples\<close>

lemma lift2_simps [simp]:
  "lift2 f None y = None" "lift2 f x None = None" "lift2 f (Some u) (Some v) = Some (f u v)"
  by (simp_all add: lift2_def split: option.splits)

lemma data_filled [simp]:
  "data (filled r c f) (i, j) = (if i < nat r \<and> j < nat c then Some (f i j) else None)"
  by (simp add: filled_def)

lemma rows_filled [simp]: "rows (filled r c f) = r"
  by (simp add: filled_def)

lemma cols_filled [simp]: "cols (filled r c f) = c"
  by (simp add: filled_def)

lemma ascending_sum_foldl:
  "foldl (\<lambda>acc k. lift2 dadd acc (f k)) (Some d_zero) [0..<n] = ascending_sum f n"
  by (induction n) simp_all

lemma ascending_sum_cong:
  assumes "\<And>k. k < n \<Longrightarrow> f k = g k"
  shows "ascending_sum f n = ascending_sum g n"
  using assms by (induction n) simp_all

lemma valid_filled:
  assumes "0 < r" and "r \<le> int MAX_DIM" and "0 < c" and "c \<le> int MAX_DIM"
  shows "valid_matrix (filled r c f)"
  using assms by (simp add: valid_matrix_def)

lemma finite_filled:
  assumes "\<And>i j. i < nat r \<Longrightarrow> j < nat c \<Longrightarrow> is_finite (f i j)"
  shows "finite_entries (filled r c f)"
  using assms by (simp add: finite_entries_def)

section \<open>Facts of the arithmetic\<close>

text \<open>The literals of the source denote the doubles they should.\<close>

lemma d_one_is_int_1: "double_of_int 1 = d_one"
  by (simp add: float_eval)

lemma eps_nearest: "expn eps = - 82 \<and> 2 * \<bar>int (mant eps) * 10 ^ 9 - 2 ^ 82\<bar> \<le> 10 ^ 9"
  by (simp add: float_eval)

subsection \<open>The bit fields\<close>

lemma unat_frac_less: "unat (f :: 52 word) < 2 ^ 52"
  using unsigned_less [of f, where ?'a = nat] by simp

lemma uint_frac_less: "uint (f :: 52 word) < 2 ^ 52"
  using unsigned_less [of f, where ?'a = int] by simp

lemma unat_expo_less: "unat (e :: 11 word) < 2048"
  using unsigned_less [of e, where ?'a = nat] by simp

lemma unat_expo_neq:
  assumes "e \<noteq> (2047 :: 11 word)"
  shows "unat e \<noteq> 2047"
proof
  assume "unat e = 2047"
  then have "(of_nat (unat e) :: 11 word) = of_nat 2047" by simp
  then show False using assms by simp
qed

lemma expo_of_nat_neq:
  assumes "k < 2047"
  shows "(of_nat k :: 11 word) \<noteq> 2047"
proof
  assume "(of_nat k :: 11 word) = 2047"
  then have "unat (of_nat k :: 11 word) = unat (2047 :: 11 word)" by simp
  then show False using assms by (simp add: unat_of_nat)
qed

lemma uint_expo_pos: "e \<noteq> 0 \<Longrightarrow> 1 \<le> uint (e :: 11 word)"
  using uint_0_iff [of e] uint_nonnegative [of e] by linarith

lemma expn_ge: "- 1074 \<le> expn x"
  using uint_nonnegative [of "expo x"] uint_expo_pos [of "expo x"] by (simp add: expn_def)

lemma mant_zero_iff: "mant x = 0 \<longleftrightarrow> expo x = 0 \<and> frac x = 0"
  by (auto simp add: mant_def unat_eq_0)

lemma mant_signed_zero [simp]: "mant (Double s 0 0) = 0"
  by (simp add: mant_def)

lemma signed_mant_zero: "signed_mant (Double s 0 0) e = 0"
  by (simp add: signed_mant_def)

lemma is_finite_one [simp]: "is_finite d_one"
  by (simp add: is_finite_def d_one_def)

lemma is_finite_zero [simp]: "is_finite (Double s 0 0)"
  by (simp add: is_finite_def)

lemma finite_not_nan: "is_finite x \<Longrightarrow> \<not> is_nan x"
  by (simp add: is_finite_def is_nan_def)

lemma finite_not_inf: "is_finite x \<Longrightarrow> \<not> is_inf x"
  by (simp add: is_finite_def is_inf_def)

lemma is_nan_fabs [simp]: "is_nan (fabs z) = is_nan z"
  by (simp add: is_nan_def fabs_def)

subsection \<open>No operation on finite doubles gives a NaN\<close>

lemma pack_not_nan: "\<not> is_nan (pack s M E)"
proof -
  define n where "n = nat (E + 1074) * 2 ^ 52 + M"
  have unfolded: "pack s M E =
      (if 2047 * 2 ^ 52 \<le> n then d_inf s
       else Double s (of_nat (n div 2 ^ 52)) (of_nat (n mod 2 ^ 52)))"
    unfolding pack_def Let_def n_def ..
  show ?thesis
  proof (cases "2047 * 2 ^ 52 \<le> n")
    case True
    then show ?thesis
      unfolding unfolded by (simp add: is_nan_def d_inf_def)
  next
    case False
    then have "n div 2 ^ 52 < 2047"
      by (simp add: less_mult_imp_div_less)
    then have "(of_nat (n div 2 ^ 52) :: 11 word) \<noteq> 2047"
      by (rule expo_of_nat_neq)
    with False show ?thesis
      unfolding unfolded is_nan_def by simp
  qed
qed

lemma zero_not_nan: "\<not> is_nan (Double s 0 0)"
  by (simp add: is_nan_def)

lemma round_double_not_nan: "\<not> is_nan (round_double s M E)"
  by (simp add: round_double_def Let_def pack_not_nan zero_not_nan)

lemma dadd_finite_not_nan:
  assumes "is_finite x" and "is_finite y"
  shows "\<not> is_nan (dadd x y)"
  using assms
  by (simp add: dadd_def Let_def finite_not_nan finite_not_inf round_double_not_nan zero_not_nan)

lemma dsub_finite_not_nan:
  assumes "is_finite x" and "is_finite y"
  shows "\<not> is_nan (dsub x y)"
  unfolding dsub_def using assms by (intro dadd_finite_not_nan) (simp_all add: is_finite_def dneg_def)

lemma not_dgt_eps_iff:
  assumes "\<not> is_nan a"
  shows "\<not> dgt a eps \<longleftrightarrow> dle a eps"
proof -
  have "\<not> is_nan eps" by (simp add: is_nan_def eps_def)
  with assms show ?thesis by (auto simp add: dgt_def dle_def)
qed

lemma tolerance_check:
  assumes "is_finite x" and "is_finite y"
  shows "\<not> dgt (fabs (dsub x y)) eps \<longleftrightarrow> dle (fabs (dsub x y)) eps"
  using assms by (simp add: not_dgt_eps_iff dsub_finite_not_nan)

subsection \<open>Rounding a representable number changes nothing\<close>

lemma bitlen_subnormal: "bitlen (uint (f :: 52 word)) \<le> 52"
  using uint_frac_less [of f] by (subst bitlen_le_iff_power) simp

lemma bitlen_normal: "bitlen (2 ^ 52 + uint (f :: 52 word)) = 53"
  using bitlen_twopow_add_eq [of "uint f" 52] uint_frac_less [of f] by simp

lemma bitlen_mant:
  assumes "0 < mant x"
  shows "max (expn x + bitlen (int (mant x)) - 53) (- 1074) = expn x"
proof (cases "expo x = 0")
  case True
  with bitlen_subnormal [of "frac x"] show ?thesis
    by (simp add: mant_def expn_def)
next
  case False
  with bitlen_normal [of "frac x"] uint_expo_pos [of "expo x"] show ?thesis
    by (simp add: mant_def expn_def)
qed

lemma round_even_exact: "round_even (M * 2 ^ k) k = M"
  by (simp add: round_even_def)

lemma pack_mant:
  assumes "is_finite x"
  shows "pack s (mant x) (expn x) = Double s (expo x) (frac x)"
proof (cases "expo x = 0")
  case True
  then show ?thesis
    using unat_frac_less [of "frac x"] by (simp add: pack_def mant_def expn_def)
next
  case False
  then have pos: "1 \<le> unat (expo x)"
    using unat_gt_0 [of "expo x"] by simp
  have "unat (expo x) \<noteq> 2047"
    using assms by (intro unat_expo_neq) (simp add: is_finite_def)
  with unat_expo_less [of "expo x"] have le: "unat (expo x) \<le> 2046"
    by simp
  have "nat (uint (expo x) - 1) = unat (expo x) - 1"
    using nat_diff_distrib' [of "uint (expo x)" 1] by simp
  moreover have "(u - 1) * 2 ^ 52 + 2 ^ 52 = u * (2 ^ 52 :: nat)" if "1 \<le> u" for u :: nat
    using that by (cases u) simp_all
  ultimately have n: "nat (expn x + 1074) * 2 ^ 52 + mant x = unat (expo x) * 2 ^ 52 + unat (frac x)"
    using False pos by (simp add: mant_def expn_def)
  have "unat (expo x) * 2 ^ 52 + unat (frac x) < 2047 * 2 ^ 52"
    using le unat_frac_less [of "frac x"] by simp
  moreover have "(unat (expo x) * 2 ^ 52 + unat (frac x)) div 2 ^ 52 = unat (expo x)"
    using unat_frac_less [of "frac x"] by simp
  moreover have "(unat (expo x) * 2 ^ 52 + unat (frac x)) mod 2 ^ 52 = unat (frac x)"
    using unat_frac_less [of "frac x"] by simp
  ultimately show ?thesis
    unfolding pack_def Let_def n by (simp del: of_nat_add of_nat_mult)
qed

lemma round_exact:
  assumes "is_finite x"
  shows "round_double s (mant x * 2 ^ k) (expn x - int k) = Double s (expo x) (frac x)"
proof (cases "mant x = 0")
  case True
  then show ?thesis
    by (simp add: round_double_def mant_zero_iff)
next
  case False
  then have pos: "0 < int (mant x)" by simp
  have bl: "bitlen (int (mant x * 2 ^ k)) = bitlen (int (mant x)) + int k"
    using bitlen_pow2 [OF pos, of k] by simp
  have E: "max (expn x - int k + bitlen (int (mant x * 2 ^ k)) - 53) (- 1074) = expn x"
    using bitlen_mant [of x] False by (simp add: bl)
  have M: "(if expn x \<le> expn x - int k then mant x * 2 ^ k * 2 ^ nat (expn x - int k - expn x)
            else round_even (mant x * 2 ^ k) (nat (expn x - (expn x - int k)))) = mant x"
    by (simp add: round_even_exact)
  show ?thesis
    using False unfolding round_double_def Let_def E M by (simp add: pack_mant assms)
qed

subsection \<open>Multiplying by one and by zero, adding zero\<close>

lemma dmul_commute: "dmul x y = dmul y x"
  by (cases "sign_bit x"; cases "sign_bit y")
     (simp_all add: dmul_def disj_commute mult.commute add.commute)

lemma dmul_one:
  assumes "is_finite x"
  shows "dmul x d_one = x"
proof -
  have "mant d_one = 2 ^ 52" and "expn d_one = - 52" and "\<not> sign_bit d_one"
    by (simp_all add: mant_def expn_def d_one_def)
  then have "dmul x d_one = round_double (sign_bit x) (mant x * 2 ^ 52) (expn x - int 52)"
    using assms by (simp add: dmul_def finite_not_nan finite_not_inf)
  also have "\<dots> = Double (sign_bit x) (expo x) (frac x)"
    using assms by (rule round_exact)
  finally show ?thesis by simp
qed

lemma dmul_zero:
  assumes "is_finite x"
  shows "dmul x d_zero = Double (sign_bit x) 0 0"
proof -
  have "mant d_zero = 0" and "\<not> sign_bit d_zero" and "is_finite d_zero"
    by (simp_all add: mant_def d_zero_def)
  then show ?thesis
    using assms by (simp add: dmul_def finite_not_nan finite_not_inf round_double_def)
qed

lemma dadd_zero_zero: "dadd d_zero (Double s 0 0) = d_zero"
  by (simp add: float_eval)

lemma dadd_zero_right:
  assumes "is_finite x"
  shows "same_number (dadd x (Double s 0 0)) x"
proof (cases "mant x = 0")
  case True
  then have "signed_mant x e = 0" for e
    by (simp add: signed_mant_def)
  then have "dadd x (Double s 0 0) = Double (sign_bit x \<and> s) 0 0"
    using assms by (simp add: dadd_def finite_not_nan finite_not_inf signed_mant_zero)
  with True show ?thesis
    by (simp add: same_number_def is_zero_def mant_zero_iff)
next
  case False
  have e: "min (expn x) (expn (Double s 0 0)) = - 1074"
    using expn_ge [of x] by (simp add: expn_def)
  define k where "k = nat (expn x + 1074)"
  have k: "- 1074 = expn x - int k"
    using expn_ge [of x] by (simp add: k_def)
  have t: "signed_mant x (- 1074) + signed_mant (Double s 0 0) (- 1074) =
             (if sign_bit x then - 1 else 1) * int (mant x * 2 ^ k)"
    by (simp add: signed_mant_zero signed_mant_def k_def)
  have "dadd x (Double s 0 0) = round_double (sign_bit x) (mant x * 2 ^ k) (- 1074)"
    using assms False
    by (simp add: dadd_def finite_not_nan finite_not_inf Let_def e t del: of_nat_mult of_nat_power)
  also have "\<dots> = Double (sign_bit x) (expo x) (frac x)"
    unfolding k using assms by (rule round_exact)
  finally show ?thesis
    by (simp add: same_number_def)
qed

lemma dadd_zero_left:
  assumes "is_finite x"
  shows "same_number (dadd (Double s 0 0) x) x"
proof (cases "mant x = 0")
  case True
  then have "signed_mant x e = 0" for e
    by (simp add: signed_mant_def)
  then have "dadd (Double s 0 0) x = Double (s \<and> sign_bit x) 0 0"
    using assms by (simp add: dadd_def finite_not_nan finite_not_inf signed_mant_zero)
  with True show ?thesis
    by (simp add: same_number_def is_zero_def mant_zero_iff)
next
  case False
  have e: "min (expn (Double s 0 0)) (expn x) = - 1074"
    using expn_ge [of x] by (simp add: expn_def)
  define k where "k = nat (expn x + 1074)"
  have k: "- 1074 = expn x - int k"
    using expn_ge [of x] by (simp add: k_def)
  have t: "signed_mant (Double s 0 0) (- 1074) + signed_mant x (- 1074) =
             (if sign_bit x then - 1 else 1) * int (mant x * 2 ^ k)"
    by (simp add: signed_mant_zero signed_mant_def k_def)
  have "dadd (Double s 0 0) x = round_double (sign_bit x) (mant x * 2 ^ k) (- 1074)"
    using assms False
    by (simp add: dadd_def finite_not_nan finite_not_inf Let_def e t del: of_nat_mult of_nat_power)
  also have "\<dots> = Double (sign_bit x) (expo x) (frac x)"
    unfolding k using assms by (rule round_exact)
  finally show ?thesis
    by (simp add: same_number_def)
qed

lemma same_number_finite: "same_number a b \<Longrightarrow> is_finite b \<Longrightarrow> is_finite a"
  by (auto simp add: same_number_def is_zero_def is_finite_def)

lemma same_number_add_zero:
  assumes "same_number a x" and "is_finite x"
  shows "same_number (dadd a (Double s 0 0)) x"
proof -
  have fin: "is_finite a"
    using assms by (rule same_number_finite)
  have step: "same_number (dadd a (Double s 0 0)) a"
    using fin by (rule dadd_zero_right)
  show ?thesis
    using step assms(1) by (auto simp add: same_number_def)
qed

lemma same_number_deq:
  assumes "same_number a x" and "is_finite x"
  shows "deq a x"
  using assms by (auto simp add: same_number_def deq_def is_finite_def is_zero_def is_nan_def key_def)

text \<open>A row of a matrix times a column of the identity: every term but one is a zero.\<close>

lemma unit_sum_prefix:
  assumes fin: "\<And>k. k < n \<Longrightarrow> is_finite (x k)"
  shows "n' \<le> n \<Longrightarrow>
           \<exists>acc. ascending_sum (\<lambda>k. Some (dmul (x k) (if k = j then d_one else d_zero))) n' = Some acc \<and>
                 (if n' \<le> j then acc = d_zero else same_number acc (x j))"
proof (induction n')
  case 0
  show ?case by simp
next
  case (Suc n')
  then obtain acc where
    acc: "ascending_sum (\<lambda>k. Some (dmul (x k) (if k = j then d_one else d_zero))) n' = Some acc"
    and inv: "if n' \<le> j then acc = d_zero else same_number acc (x j)"
    by auto
  have finn: "is_finite (x n')"
    using Suc.prems by (simp add: fin)
  consider (before) "n' < j" | (at) "n' = j" | (after) "j < n'"
    by (rule linorder_cases)
  then show ?case
  proof cases
    case before
    with inv have "acc = d_zero" by simp
    with before finn show ?thesis
      by (simp add: acc dmul_zero dadd_zero_zero)
  next
    case at
    with inv have "acc = Double False 0 0" by (simp add: d_zero_def)
    with at finn acc show ?thesis
      by (simp add: dmul_one dadd_zero_left)
  next
    case after
    then have "is_finite (x j)"
      using Suc.prems by (simp add: fin)
    moreover from after inv have "same_number acc (x j)" by simp
    ultimately have "same_number (dadd acc (Double (sign_bit (x n')) 0 0)) (x j)"
      by (simp add: same_number_add_zero)
    with after finn show ?thesis
      by (simp add: acc dmul_zero)
  qed
qed

lemma unit_sum:
  assumes "j < n" and "\<And>k. k < n \<Longrightarrow> is_finite (x k)"
  shows "\<exists>acc. ascending_sum (\<lambda>k. Some (dmul (x k) (if k = j then d_one else d_zero))) n = Some acc \<and>
               deq acc (x j)"
proof -
  obtain acc where
    "ascending_sum (\<lambda>k. Some (dmul (x k) (if k = j then d_one else d_zero))) n = Some acc"
    and "same_number acc (x j)"
    using unit_sum_prefix [of n x n j] assms by auto
  then show ?thesis
    using assms by (auto intro: same_number_deq)
qed

subsection \<open>Counting to ten\<close>

lemma count_up_values:
  "dadd (double_of_int 0) d_one = double_of_int 1"
  "dadd (double_of_int 1) d_one = double_of_int 2"
  "dadd (double_of_int 2) d_one = double_of_int 3"
  "dadd (double_of_int 3) d_one = double_of_int 4"
  "dadd (double_of_int 4) d_one = double_of_int 5"
  "dadd (double_of_int 5) d_one = double_of_int 6"
  "dadd (double_of_int 6) d_one = double_of_int 7"
  "dadd (double_of_int 7) d_one = double_of_int 8"
  "dadd (double_of_int 8) d_one = double_of_int 9"
  "dadd (double_of_int 9) d_one = double_of_int 10"
  by (simp_all add: float_eval)

lemma count_up:
  assumes "k < 10"
  shows "dadd (double_of_int (int k)) d_one = double_of_int (int (Suc k))"
proof -
  from assms have "k = 0 \<or> k = 1 \<or> k = 2 \<or> k = 3 \<or> k = 4 \<or> k = 5 \<or> k = 6 \<or> k = 7 \<or> k = 8 \<or> k = 9"
    by arith
  then show ?thesis
    using count_up_values by (elim disjE) simp_all
qed

lemma ones_sum:
  "k \<le> 10 \<Longrightarrow> ascending_sum (\<lambda>i. Some d_one) k = Some (double_of_int (int k))"
proof (induction k)
  case 0
  show ?case by (simp add: d_zero_is_int_0)
next
  case (Suc k)
  then show ?case by (simp add: count_up del: of_nat_Suc)
qed

subsection \<open>An example of rounding\<close>

lemma scale_example_values:
  "dadd (double_of_int 9007199254740992) (double_of_int 1) = double_of_int 9007199254740992"
  "dmul (double_of_int 3) (double_of_int 9007199254740992) = double_of_int 27021597764222976"
  "dmul (double_of_int 3) (double_of_int 1) = double_of_int 3"
  "dadd (double_of_int 27021597764222976) (double_of_int 3) = double_of_int 27021597764222980"
  "\<not> deq (double_of_int 27021597764222976) (double_of_int 27021597764222980)"
  by (simp_all add: float_eval)

section \<open>The symmetry test\<close>

lemma tolerance_on_cells:
  "within_tolerance (Some x) (Some y) = dle (fabs (dsub x y)) eps"
  "beyond_tolerance (Some x) (Some y) = dgt (fabs (dsub x y)) eps"
  by (simp_all add: within_tolerance_def beyond_tolerance_def)

lemma first_hit:
  "foldl (\<lambda>s k. case s of Some r \<Rightarrow> Some r | None \<Rightarrow> if P k then Some 0 else None) s [0..<n] =
     (case s of Some r \<Rightarrow> Some (r :: int) | None \<Rightarrow> if \<exists>k<n. P k then Some 0 else None)"
  by (induction n) (auto simp add: less_Suc_eq split: option.splits)

lemma symmetric_step_eq:
  assumes "valid_matrix m" and "rows m = cols m" and "i < nat (rows m)" and "j < nat (rows m)"
  shows "symmetric_step m i j ret =
           Inr (case ret of
                  Some r \<Rightarrow> Some r
                | None \<Rightarrow> if beyond_tolerance (data m (i, j)) (data m (j, i)) then Some 0 else None)"
proof -
  have "i < MAX_DIM" and "j < MAX_DIM"
    using assms by (auto simp add: valid_matrix_def)
  moreover have "data m (i, j) \<noteq> None" and "data m (j, i) \<noteq> None"
    using assms by (simp_all add: valid_matrix_def)
  then obtain x y where "data m (i, j) = Some x" and "data m (j, i) = Some y"
    by auto
  ultimately show ?thesis
    by (simp add: symmetric_step_def rd_in_range tolerance_on_cells split: option.splits)
qed

lemma is_symmetric_eq:
  assumes "valid_matrix m" and "rows m = cols m"
  shows "is_symmetric m =
           Inr (if \<exists>i<nat (rows m). \<exists>j<nat (rows m).
                     beyond_tolerance (data m (i, j)) (data m (j, i)) then 0 else 1)"
proof -
  define n where "n = nat (rows m)"
  define bad where "bad i j = beyond_tolerance (data m (i, j)) (data m (j, i))" for i j
  have c: "nat (cols m) = n"
    using assms by (simp add: n_def)
  have inner: "for_each [0..<n] (symmetric_step m i) ret =
              Inr (case ret of Some r \<Rightarrow> Some r | None \<Rightarrow> if \<exists>j<n. bad i j then Some 0 else None)"
    if "i < n" for i ret
  proof -
    have "for_each [0..<n] (symmetric_step m i) ret =
          Inr (foldl (\<lambda>s j. case s of Some r \<Rightarrow> Some r | None \<Rightarrow> if bad i j then Some 0 else None)
                 ret [0..<n])"
      using that assms by (intro for_each_pure) (simp add: symmetric_step_eq n_def bad_def)
    then show ?thesis
      by (simp add: first_hit)
  qed
  have "for_each [0..<n] (\<lambda>i. for_each [0..<n] (symmetric_step m i)) None =
        Inr (foldl (\<lambda>s i. case s of Some r \<Rightarrow> Some r | None \<Rightarrow> if \<exists>j<n. bad i j then Some 0 else None)
               None [0..<n])"
    by (intro for_each_pure) (rule inner, simp)
  then have "for_each [0..<n] (\<lambda>i. for_each [0..<n] (symmetric_step m i)) None =
        Inr (if \<exists>i<n. \<exists>j<n. bad i j then Some 0 else None)"
    by (simp add: first_hit)
  then show ?thesis
    using assms(2) c by (simp add: is_symmetric_def for_upto_eq n_def [symmetric] bad_def)
qed

text \<open>On finite entries \<open>|x - y| > 1e-9\<close> is the negation of \<open>|x - y| \<le> 1e-9\<close>.\<close>

lemma beyond_iff_not_within:
  assumes "finite_entries m" and "valid_matrix m" and "rows m = cols m"
    and "i < nat (rows m)" and "j < nat (rows m)"
  shows "beyond_tolerance (data m (i, j)) (data m (j, i)) \<longleftrightarrow>
           \<not> within_tolerance (data m (i, j)) (data m (j, i))"
proof -
  have "data m (i, j) \<noteq> None" and "data m (j, i) \<noteq> None"
    using assms by (simp_all add: valid_matrix_def)
  then obtain x y where x: "data m (i, j) = Some x" and y: "data m (j, i) = Some y"
    by auto
  then have "is_finite x" and "is_finite y"
    using assms by (auto simp add: finite_entries_def)
  then show ?thesis
    using tolerance_check [of x y] by (auto simp add: x y tolerance_on_cells)
qed

lemma identity_within_tolerance:
  "\<not> beyond_tolerance (Some d_one) (Some d_one)" "\<not> beyond_tolerance (Some d_zero) (Some d_zero)"
  by (simp_all add: tolerance_on_cells) (simp_all add: float_eval)

lemma is_symmetric_identity:
  assumes "1 \<le> n" and "n \<le> int MAX_DIM"
  shows "is_symmetric (filled n n (\<lambda>i j. if i = j then d_one else d_zero)) = Inr 1"
proof -
  let ?e = "filled n n (\<lambda>i j. if i = j then d_one else d_zero)"
  have "valid_matrix ?e"
    using assms by (intro valid_filled) simp_all
  then have "is_symmetric ?e =
           Inr (if \<exists>i<nat (rows ?e). \<exists>j<nat (rows ?e).
                     beyond_tolerance (data ?e (i, j)) (data ?e (j, i)) then 0 else 1)"
    by (intro is_symmetric_eq) simp_all
  then show ?thesis
    by (simp add: identity_within_tolerance)
qed

section \<open>The results of the demonstration run\<close>

text \<open>
  The matrices of \<^verbatim>\<open>main\<close>, and the results that it prints: the sum, the product, the
  trace, the symmetry test and the determinant of the specification's scenario.
\<close>

lemma upt_3: "[0..<3] = [0, 1, 2]"
  by (simp add: eval_nat_numeral)

lemma small_ints:
  "double_of_int 1 = Double False 1023 0"
  "double_of_int 2 = Double False 1024 0"
  "double_of_int 3 = Double False 1024 2251799813685248"
  "double_of_int 4 = Double False 1025 0"
  "double_of_int 5 = Double False 1025 1125899906842624"
  "double_of_int 6 = Double False 1025 2251799813685248"
  "double_of_int 7 = Double False 1025 3377699720527872"
  "double_of_int 8 = Double False 1026 0"
  "double_of_int 9 = Double False 1026 562949953421312"
  by (simp_all add: float_eval)

lemma assign_eq:
  "assign vals (filled 3 3 f) = Inr (filled 3 3 (\<lambda>i j. double_of_int (vals ! i ! j)))"
proof -
  have "for_each [0..<nat 3] (\<lambda>i. for_each [0..<nat 3] (\<lambda>j m. wr m i j (Some (double_of_int (vals ! i ! j))))) m =
          Inr (m\<lparr>data := (\<lambda>p. if fst p < nat 3 \<and> snd p < nat 3
                               then Some (double_of_int (vals ! fst p ! snd p)) else data m p)\<rparr>)"
    for m
    by (intro grid_loop) (simp add: wr_in_range MAX_DIM_def)
  then show ?thesis
    by (auto simp add: assign_def for_upto_eq filled_def fun_eq_iff)
qed

lemma main_a_eq: "main_a = Inr (filled 3 3 (\<lambda>i j. double_of_int (vals_a ! i ! j)))"
  by (simp add: main_a_def create_matrix_filled MAX_DIM_def assign_eq)

lemma main_b_eq: "main_b = Inr (filled 3 3 (\<lambda>i j. double_of_int (vals_b ! i ! j)))"
  by (simp add: main_b_def create_matrix_filled MAX_DIM_def assign_eq)

lemma main_sum:
  "entries (and_then main_a (\<lambda>a. and_then main_b (add a))) =
     numbers [[10, 10, 10], [10, 10, 10], [10, 10, 10]]"
  by (simp add: main_a_eq main_b_eq add_eq MAX_DIM_def entries_def numbers_def upt_3 vals_a_def vals_b_def small_ints)
     (simp add: float_eval)

lemma main_product:
  "entries (and_then main_a (\<lambda>a. and_then main_b (multiply a))) =
     numbers [[30, 24, 18], [84, 69, 54], [138, 114, 90]]"
  by (simp add: main_a_eq main_b_eq multiply_eq MAX_DIM_def entries_def numbers_def upt_3 vals_a_def vals_b_def small_ints)
     (simp add: float_eval)

lemma main_trace: "and_then main_a trace = Inr (Some (double_of_int 15))"
  by (simp add: main_a_eq trace_eq MAX_DIM_def upt_3 vals_a_def small_ints)
     (simp add: float_eval)

lemma main_determinant: "and_then main_small determinant_2x2 = Inr (Some (double_of_int (- 14)))"
  by (simp add: main_small_def create_matrix_filled MAX_DIM_def wr_in_range determinant_2x2_def
        rd_in_range small_ints)
     (simp add: float_eval)

lemma main_symmetric: "and_then main_a is_symmetric = Inr 0"
proof -
  let ?a = "filled 3 3 (\<lambda>i j. double_of_int (vals_a ! i ! j))"
  have "valid_matrix ?a"
    by (intro valid_filled) (simp_all add: MAX_DIM_def)
  moreover have "beyond_tolerance (data ?a (0, 1)) (data ?a (1, 0))"
    by (simp add: tolerance_on_cells vals_a_def small_ints) (simp add: float_eval)
  then have "\<exists>i<nat (rows ?a). \<exists>j<nat (rows ?a). beyond_tolerance (data ?a (i, j)) (data ?a (j, i))"
    by (intro exI [of _ 0] exI [of _ 1] conjI) simp_all
  ultimately have "is_symmetric ?a = Inr 0"
    by (simp add: is_symmetric_eq)
  then show ?thesis
    by (simp add: main_a_eq)
qed

section \<open>The claims\<close>

text \<open>
  In the theorems below a matrix is within capacity when its \<open>rows\<close> and \<open>cols\<close> do not
  exceed \<open>MAX\<close>; the matrices of the specification's data model (\<open>valid_matrix\<close>) are.
  Beyond the capacity the loops of the source leave \<^verbatim>\<open>data[MAX][MAX]\<close>.
\<close>

subsection \<open>C1: multiplication\<close>

text \<open>
  C1, as stated: \<open>multiply(a, b)\<close> requires \<open>a.cols = b.rows\<close> and fails with
  \<open>ShapeMismatch\<close> otherwise. The code compares no shapes: on a \<open>2 \<times> 3\<close> and a \<open>2 \<times> 3\<close>
  matrix it returns a \<open>2 \<times> 3\<close> matrix. Each of its entries has accumulated a product with
  a cell of the third row of \<open>b\<close>, which was never written, and is indeterminate.
\<close>

theorem multiply_mismatch_returns:
  "multiply (filled 2 3 (\<lambda>i j. d_one)) (filled 2 3 (\<lambda>i j. d_one)) =
     Inr \<lparr>rows = 2, cols = 3, data = (\<lambda>p. None)\<rparr>"
  by (simp add: multiply_eq MAX_DIM_def fun_eq_iff eval_nat_numeral)

text \<open>
  C1, amended: \<open>multiply(a, b)\<close> checks no shape and signals no error. Whenever \<open>a.rows\<close>,
  \<open>a.cols\<close> and \<open>b.cols\<close> are within capacity, the result has shape
  \<open>a.rows \<times> b.cols\<close> and its entry \<open>(i, j)\<close> is the sum over \<open>k\<close> in \<open>[0, a.cols)\<close> of
  \<open>a[i,k] * b[k,j]\<close>, accumulated from \<open>0.0\<close> in ascending order of \<open>k\<close>; the cells
  \<open>b[k,j]\<close> are read from the backing array of \<open>b\<close> whatever \<open>b.rows\<close> is.
\<close>

theorem multiply_entries:
  assumes "rows a \<le> int MAX_DIM" and "cols a \<le> int MAX_DIM" and "cols b \<le> int MAX_DIM"
  shows "\<exists>r. multiply a b = Inr r \<and> rows r = rows a \<and> cols r = cols b \<and>
           (\<forall>i j. i < nat (rows a) \<and> j < nat (cols b) \<longrightarrow>
              data r (i, j) =
                ascending_sum (\<lambda>k. lift2 dmul (data a (i, k)) (data b (k, j))) (nat (cols a)))"
  using assms by (simp add: multiply_eq ascending_sum_foldl)

theorem multiply_entries_witness:
  "\<exists>r. multiply (filled 2 2 (\<lambda>i j. d_one)) (filled 2 2 (\<lambda>i j. d_one)) = Inr r \<and> rows r = 2 \<and> cols r = 2 \<and>
           (\<forall>i j. i < nat 2 \<and> j < nat 2 \<longrightarrow>
              data r (i, j) = Some (Double False 1024 0))"
  using multiply_entries [of "filled 2 2 (\<lambda>i j. d_one)" "filled 2 2 (\<lambda>i j. d_one)"]
  by (simp add: MAX_DIM_def eval_nat_numeral) (simp add: float_eval)

subsection \<open>C2: addition and subtraction\<close>

text \<open>
  C2, as stated: \<open>add(a, b)\<close> and \<open>subtract(a, b)\<close> fail with \<open>ShapeMismatch\<close> when the
  shapes of \<open>a\<close> and \<open>b\<close> differ. The code compares no shapes: on a \<open>2 \<times> 3\<close> and a
  \<open>3 \<times> 2\<close> matrix of ones both return a \<open>2 \<times> 3\<close> matrix, whose third column comes from
  cells of \<open>b\<close> that were never written.
\<close>

theorem add_subtract_mismatch_return:
  "add (filled 2 3 (\<lambda>i j. d_one)) (filled 3 2 (\<lambda>i j. d_one)) =
     Inr \<lparr>rows = 2, cols = 3,
          data = (\<lambda>p. if fst p < 2 \<and> snd p < 2 then Some (Double False 1024 0) else None)\<rparr> \<and>
   subtract (filled 2 3 (\<lambda>i j. d_one)) (filled 3 2 (\<lambda>i j. d_one)) =
     Inr \<lparr>rows = 2, cols = 3,
          data = (\<lambda>p. if fst p < 2 \<and> snd p < 2 then Some d_zero else None)\<rparr>"
  by (simp add: add_eq subtract_eq MAX_DIM_def fun_eq_iff) (simp add: float_eval)

text \<open>
  C2, amended: \<open>add(a, b)\<close> and \<open>subtract(a, b)\<close> check no shape and signal no error.
  Whenever \<open>a\<close> is within capacity, each returns a matrix of the shape of \<open>a\<close> whose entry
  \<open>(i, j)\<close> is \<open>a[i,j] + b[i,j]\<close> (respectively \<open>a[i,j] - b[i,j]\<close>), the cell of \<open>b\<close> read
  from its backing array whatever the shape of \<open>b\<close> is.
\<close>

theorem add_subtract_entries:
  assumes "rows a \<le> int MAX_DIM" and "cols a \<le> int MAX_DIM"
  shows "\<exists>r s. add a b = Inr r \<and> subtract a b = Inr s \<and>
           rows r = rows a \<and> cols r = cols a \<and> rows s = rows a \<and> cols s = cols a \<and>
           (\<forall>i j. i < nat (rows a) \<and> j < nat (cols a) \<longrightarrow>
              data r (i, j) = lift2 dadd (data a (i, j)) (data b (i, j)) \<and>
              data s (i, j) = lift2 dsub (data a (i, j)) (data b (i, j)))"
  using assms by (simp add: add_eq subtract_eq)

theorem add_subtract_entries_witness:
  "\<exists>r s. add (filled 2 2 (\<lambda>i j. d_one)) (filled 2 2 (\<lambda>i j. d_one)) = Inr r \<and>
         subtract (filled 2 2 (\<lambda>i j. d_one)) (filled 2 2 (\<lambda>i j. d_one)) = Inr s \<and>
         rows r = 2 \<and> cols r = 2 \<and> rows s = 2 \<and> cols s = 2 \<and>
         (\<forall>i j. i < nat 2 \<and> j < nat 2 \<longrightarrow>
            data r (i, j) = Some (Double False 1024 0) \<and> data s (i, j) = Some d_zero)"
  using add_subtract_entries [of "filled 2 2 (\<lambda>i j. d_one)" "filled 2 2 (\<lambda>i j. d_one)"]
  by (simp add: MAX_DIM_def) (simp add: float_eval)

subsection \<open>C3: creation\<close>

text \<open>
  C3, as stated: \<open>create(rows, cols)\<close> fails with \<open>BoundsExceeded\<close> whenever \<open>rows\<close> or \<open>cols\<close>
  is non-positive or exceeds \<open>MAX\<close>, in particular at \<open>create(0, 5)\<close>. The code has no such
  check: \<^verbatim>\<open>create_matrix(0, 5)\<close> runs no iteration of its loops and returns a matrix
  with \<open>rows = 0\<close> and \<open>cols = 5\<close>.
\<close>

theorem create_matrix_0_5_returns:
  "create_matrix 0 5 = Inr \<lparr>rows = 0, cols = 5, data = (\<lambda>p. None)\<rparr>"
  by (simp add: create_matrix_def for_upto_def)

text \<open>
  C3, amended: \<open>create(rows, cols)\<close> checks nothing and has no error result. Whenever
  \<open>rows \<le> MAX\<close> and \<open>cols \<le> MAX\<close>, zero and negative values included, it returns a matrix
  whose \<open>rows\<close> and \<open>cols\<close> are the arguments and whose every logical entry is \<open>0.0\<close>.
\<close>

theorem create_matrix_zero_filled:
  assumes "r \<le> int MAX_DIM" and "c \<le> int MAX_DIM"
  shows "\<exists>m. create_matrix r c = Inr m \<and> rows m = r \<and> cols m = c \<and>
             (\<forall>i j. i < nat r \<and> j < nat c \<longrightarrow> data m (i, j) = Some d_zero)"
  using assms by (simp add: create_matrix_eq)

theorem create_matrix_zero_filled_witness:
  "\<exists>m. create_matrix 2 3 = Inr m \<and> rows m = 2 \<and> cols m = 3 \<and>
       (\<forall>i j. i < nat 2 \<and> j < nat 3 \<longrightarrow> data m (i, j) = Some d_zero)"
  using create_matrix_zero_filled [of 2 3] by (simp add: MAX_DIM_def)

subsection \<open>C4: the determinant of a 2 x 2 matrix\<close>

text \<open>
  C4, as stated: \<open>determinant_2x2(m)\<close> fails with \<open>ShapeMismatch\<close> for a matrix of any shape
  other than \<open>2 \<times> 2\<close>. The code never looks at the shape: on the \<open>3 \<times> 3\<close> identity it
  returns \<open>1.0\<close>.
\<close>

theorem determinant_2x2_of_3x3_returns:
  "determinant_2x2 (filled 3 3 (\<lambda>i j. if i = j then d_one else d_zero)) = Inr (Some d_one)"
  by (simp add: determinant_2x2_def rd_in_range MAX_DIM_def) (simp add: float_eval)

text \<open>
  C4, amended: \<open>determinant_2x2(m)\<close> checks no shape and signals no error. For every matrix
  it returns \<open>m[0,0] * m[1,1] - m[0,1] * m[1,0]\<close>, the four cells read from the backing
  array whatever \<open>rows\<close> and \<open>cols\<close> are; for a \<open>2 \<times> 2\<close> matrix that is its determinant.
\<close>

theorem determinant_2x2_unchecked:
  "determinant_2x2 m =
     Inr (lift2 dsub (lift2 dmul (data m (0, 0)) (data m (1, 1)))
                     (lift2 dmul (data m (0, 1)) (data m (1, 0))))"
  by (simp add: determinant_2x2_def rd_in_range MAX_DIM_def)

subsection \<open>C5: the symmetry test\<close>

text \<open>
  C5, as stated: for a square matrix \<open>is_symmetric(m)\<close> returns true if and only if
  \<open>|m[i,j] - m[j,i]| \<le> 1e-9\<close> for all \<open>i, j\<close>. The code returns false only when a
  difference \<open>> 1e-9\<close> is found, and on doubles that is not the same: in the matrix
  with \<open>0.0\<close> on the diagonal and \<open>+inf\<close> elsewhere the difference \<open>inf - inf\<close> is a
  NaN, which is neither \<open>> 1e-9\<close> nor \<open>\<le> 1e-9\<close>. The code returns true; the condition of
  the claim is false at \<open>(0, 1)\<close>.
\<close>

theorem is_symmetric_infinite_entries:
  "is_symmetric (filled 2 2 (\<lambda>i j. if i = j then d_zero else d_inf False)) = Inr 1 \<and>
   \<not> within_tolerance (data (filled 2 2 (\<lambda>i j. if i = j then d_zero else d_inf False)) (0, 1))
                      (data (filled 2 2 (\<lambda>i j. if i = j then d_zero else d_inf False)) (1, 0))"
proof
  let ?m = "filled 2 2 (\<lambda>i j. if i = j then d_zero else d_inf False)"
  have none: "\<not> beyond_tolerance (Some (d_inf False)) (Some (d_inf False))"
    by (simp add: tolerance_on_cells) (simp add: float_eval)
  have "valid_matrix ?m"
    by (intro valid_filled) (simp_all add: MAX_DIM_def)
  then have "is_symmetric ?m =
           Inr (if \<exists>i<nat (rows ?m). \<exists>j<nat (rows ?m).
                     beyond_tolerance (data ?m (i, j)) (data ?m (j, i)) then 0 else 1)"
    by (intro is_symmetric_eq) simp_all
  then show "is_symmetric ?m = Inr 1"
    by (simp add: identity_within_tolerance none)
  show "\<not> within_tolerance (data ?m (0, 1)) (data ?m (1, 0))"
    by (simp add: tolerance_on_cells) (simp add: float_eval)
qed

text \<open>
  C5, amended: \<open>is_symmetric(m)\<close> returns false (0) whenever \<open>m.rows \<noteq> m.cols\<close>. For a
  square matrix of the data model it returns false if \<open>|m[i,j] - m[j,i]| > 1e-9\<close> for some
  \<open>i, j\<close> and true (1) otherwise; when every entry is finite, that is: true if and only if
  \<open>|m[i,j] - m[j,i]| \<le> 1e-9\<close> for all \<open>i, j\<close>. In particular \<open>is_symmetric(identity(n))\<close> is
  true for every \<open>n\<close> with \<open>1 \<le> n \<le> MAX\<close>. (Differences and comparisons are those of the
  doubles.)
\<close>

theorem is_symmetric_tolerance:
  "(rows m \<noteq> cols m \<longrightarrow> is_symmetric m = Inr 0) \<and>
   (valid_matrix m \<and> rows m = cols m \<longrightarrow>
      is_symmetric m =
        Inr (if \<exists>i j. i < nat (rows m) \<and> j < nat (cols m) \<and>
                       beyond_tolerance (data m (i, j)) (data m (j, i)) then 0 else 1)) \<and>
   (valid_matrix m \<and> finite_entries m \<and> rows m = cols m \<longrightarrow>
      is_symmetric m =
        Inr (if \<forall>i j. i < nat (rows m) \<and> j < nat (cols m) \<longrightarrow>
                       within_tolerance (data m (i, j)) (data m (j, i)) then 1 else 0)) \<and>
   (1 \<le> n \<and> n \<le> int MAX_DIM \<longrightarrow> and_then (identity n) is_symmetric = Inr 1)"
proof (intro conjI impI)
  assume "rows m \<noteq> cols m"
  then show "is_symmetric m = Inr 0"
    by (simp add: is_symmetric_def)
next
  assume "valid_matrix m \<and> rows m = cols m"
  then have "is_symmetric m =
           Inr (if \<exists>i<nat (rows m). \<exists>j<nat (rows m).
                     beyond_tolerance (data m (i, j)) (data m (j, i)) then 0 else 1)"
    by (simp add: is_symmetric_eq)
  moreover have "(\<exists>i<nat (rows m). \<exists>j<nat (rows m). beyond_tolerance (data m (i, j)) (data m (j, i))) \<longleftrightarrow>
      (\<exists>i j. i < nat (rows m) \<and> j < nat (cols m) \<and> beyond_tolerance (data m (i, j)) (data m (j, i)))"
    using \<open>valid_matrix m \<and> rows m = cols m\<close> by auto
  ultimately show "is_symmetric m =
        Inr (if \<exists>i j. i < nat (rows m) \<and> j < nat (cols m) \<and>
                       beyond_tolerance (data m (i, j)) (data m (j, i)) then 0 else 1)"
    by simp
next
  assume m: "valid_matrix m \<and> finite_entries m \<and> rows m = cols m"
  then have "is_symmetric m =
           Inr (if \<exists>i<nat (rows m). \<exists>j<nat (rows m).
                     beyond_tolerance (data m (i, j)) (data m (j, i)) then 0 else 1)"
    by (simp add: is_symmetric_eq)
  moreover have "(\<exists>i<nat (rows m). \<exists>j<nat (rows m). beyond_tolerance (data m (i, j)) (data m (j, i))) \<longleftrightarrow>
      \<not> (\<forall>i j. i < nat (rows m) \<and> j < nat (cols m) \<longrightarrow> within_tolerance (data m (i, j)) (data m (j, i)))"
    using m beyond_iff_not_within [of m] by auto
  ultimately show "is_symmetric m =
        Inr (if \<forall>i j. i < nat (rows m) \<and> j < nat (cols m) \<longrightarrow>
                       within_tolerance (data m (i, j)) (data m (j, i)) then 1 else 0)"
    by simp
next
  assume "1 \<le> n \<and> n \<le> int MAX_DIM"
  then show "and_then (identity n) is_symmetric = Inr 1"
    by (simp add: identity_filled is_symmetric_identity)
qed

theorem is_symmetric_tolerance_witness:
  "is_symmetric (filled 2 3 (\<lambda>i j. d_one)) = Inr 0 \<and>
   is_symmetric (filled 2 2 (\<lambda>i j. if i < j then d_one else d_zero)) = Inr 0 \<and>
   is_symmetric (filled 2 2 (\<lambda>i j. d_one)) = Inr 1 \<and>
   and_then (identity 3) is_symmetric = Inr 1"
proof -
  let ?u = "filled 2 2 (\<lambda>i j. if i < j then d_one else d_zero)"
  let ?s = "filled 2 2 (\<lambda>i j. d_one)"
  have valid: "valid_matrix ?u" "valid_matrix ?s"
    by (rule valid_filled; simp add: MAX_DIM_def)+
  have finite: "finite_entries ?u" "finite_entries ?s"
    by (rule finite_filled; simp add: d_zero_def)+
  have "beyond_tolerance (data ?u (0, 1)) (data ?u (1, 0))"
    by (simp add: tolerance_on_cells) (simp add: float_eval)
  then have "\<exists>i j. i < nat (rows ?u) \<and> j < nat (cols ?u) \<and>
                       beyond_tolerance (data ?u (i, j)) (data ?u (j, i))"
    by (intro exI [of _ 0] exI [of _ 1] conjI) simp_all
  then have "is_symmetric ?u = Inr 0"
    using is_symmetric_tolerance [of ?u 3] valid by auto
  moreover have "\<forall>i j. i < nat (rows ?s) \<and> j < nat (cols ?s) \<longrightarrow>
                       within_tolerance (data ?s (i, j)) (data ?s (j, i))"
    by (simp add: tolerance_on_cells) (simp add: float_eval)
  then have "is_symmetric ?s = Inr 1"
    using is_symmetric_tolerance [of ?s 3] valid finite by (simp add: identity_within_tolerance)
  moreover have "is_symmetric (filled 2 3 (\<lambda>i j. d_one)) = Inr 0"
    using is_symmetric_tolerance [of "filled 2 3 (\<lambda>i j. d_one)" 3] by simp
  moreover have "and_then (identity 3) is_symmetric = Inr 1"
    using is_symmetric_tolerance [of ?s 3] by (simp add: MAX_DIM_def)
  ultimately show ?thesis
    by simp
qed

subsection \<open>C6: the trace\<close>

text \<open>
  C6: \<open>trace(m)\<close> is the sum of \<open>m[i,i]\<close> for \<open>i\<close> in \<open>[0, min(m.rows, m.cols))\<close>, accumulated
  from \<open>0.0\<close> in ascending order, also for a matrix that is not square; and
  \<open>trace(identity(n))\<close> is \<open>n\<close> for every \<open>n\<close> with \<open>1 \<le> n \<le> MAX\<close>.
\<close>

theorem trace_diagonal_sum:
  "(rows m \<le> int MAX_DIM \<or> cols m \<le> int MAX_DIM \<longrightarrow>
      trace m = Inr (ascending_sum (\<lambda>i. data m (i, i)) (nat (min (rows m) (cols m))))) \<and>
   (1 \<le> n \<and> n \<le> int MAX_DIM \<longrightarrow> and_then (identity n) trace = Inr (Some (double_of_int n)))"
proof (intro conjI impI)
  assume "rows m \<le> int MAX_DIM \<or> cols m \<le> int MAX_DIM"
  then show "trace m = Inr (ascending_sum (\<lambda>i. data m (i, i)) (nat (min (rows m) (cols m))))"
    by (simp add: trace_eq ascending_sum_foldl)
next
  assume n: "1 \<le> n \<and> n \<le> int MAX_DIM"
  let ?e = "filled n n (\<lambda>i j. if i = j then d_one else d_zero)"
  have "trace ?e = Inr (ascending_sum (\<lambda>i. data ?e (i, i)) (nat n))"
    using n by (simp add: trace_eq ascending_sum_foldl)
  also have "ascending_sum (\<lambda>i. data ?e (i, i)) (nat n) = ascending_sum (\<lambda>i. Some d_one) (nat n)"
    by (rule ascending_sum_cong) simp
  also have "\<dots> = Some (double_of_int (int (nat n)))"
    using n by (intro ones_sum) (auto simp add: MAX_DIM_def)
  finally show "and_then (identity n) trace = Inr (Some (double_of_int n))"
    using n by (simp add: identity_filled)
qed

theorem trace_diagonal_sum_witness:
  "trace (filled 2 3 (\<lambda>i j. d_one)) = Inr (Some (Double False 1024 0)) \<and>
   and_then (identity 3) trace = Inr (Some (Double False 1024 2251799813685248))"
  using trace_diagonal_sum [of "filled 2 3 (\<lambda>i j. d_one)" 3]
  by (simp add: MAX_DIM_def eval_nat_numeral) (simp add: float_eval)

subsection \<open>C7: transposition\<close>

text \<open>
  C7: for every matrix \<open>m\<close> (within capacity), \<open>transpose(m)\<close> has shape
  \<open>m.cols \<times> m.rows\<close> with entry \<open>(j, i)\<close> equal to \<open>m[i,j]\<close>, and \<open>transpose(transpose(m))\<close>
  has the shape and the logical entries of \<open>m\<close>.
\<close>

theorem transpose_involution:
  assumes "rows m \<le> int MAX_DIM" and "cols m \<le> int MAX_DIM"
  shows "\<exists>t u. transpose_m m = Inr t \<and> rows t = cols m \<and> cols t = rows m \<and>
           (\<forall>i j. i < nat (rows m) \<and> j < nat (cols m) \<longrightarrow> data t (j, i) = data m (i, j)) \<and>
           transpose_m t = Inr u \<and> rows u = rows m \<and> cols u = cols m \<and>
           (\<forall>i j. i < nat (rows m) \<and> j < nat (cols m) \<longrightarrow> data u (i, j) = data m (i, j))"
  using assms by (simp add: transpose_eq)

theorem transpose_involution_witness:
  "\<exists>t u. transpose_m (filled 2 3 (\<lambda>i j. if i < j then d_one else d_zero)) = Inr t \<and>
     rows t = 3 \<and> cols t = 2 \<and> data t (0, 1) = Some d_zero \<and> data t (1, 0) = Some d_one \<and>
     transpose_m t = Inr u \<and> rows u = 2 \<and> cols u = 3 \<and>
     data u (0, 1) = Some d_one \<and> data u (1, 0) = Some d_zero"
  using transpose_involution [of "filled 2 3 (\<lambda>i j. if i < j then d_one else d_zero)"]
  by (simp add: MAX_DIM_def) (auto simp add: transpose_eq MAX_DIM_def)

subsection \<open>C8: multiplication by the identity\<close>

text \<open>
  C8, as stated: for every square matrix \<open>m\<close> of size \<open>n\<close>, \<open>multiply(m, identity(n)) = m\<close>
  and \<open>multiply(identity(n), m) = m\<close>, entry by entry in 64-bit floating-point arithmetic.
  An infinite entry breaks this: the accumulation of entry \<open>(i, j)\<close> adds \<open>m[i,k] * 0.0\<close>
  for every \<open>k \<noteq> j\<close>, and \<open>inf * 0.0\<close> is a NaN. For \<open>m = [[inf, 1], [1, 1]]\<close> the product
  \<open>multiply(m, identity(2))\<close> is \<open>[[inf, NaN], [1, 1]]\<close>.
\<close>

theorem multiply_identity_infinite_entry:
  "entries (and_then (identity 2)
              (multiply (filled 2 2 (\<lambda>i j. if i = 0 \<and> j = 0 then d_inf False else d_one)))) =
     Inr [[Some (d_inf False), Some d_nan], [Some d_one, Some d_one]] \<and>
   entries (Inr (filled 2 2 (\<lambda>i j. if i = 0 \<and> j = 0 then d_inf False else d_one))) =
     Inr [[Some (d_inf False), Some d_one], [Some d_one, Some d_one]] \<and>
   \<not> cell_eq (Some d_nan) (Some d_one)"
proof (intro conjI)
  have upt_2: "[0..<2] = [0, 1]"
    by (simp add: upt_rec)
  show "entries (and_then (identity 2)
              (multiply (filled 2 2 (\<lambda>i j. if i = 0 \<and> j = 0 then d_inf False else d_one)))) =
     Inr [[Some (d_inf False), Some d_nan], [Some d_one, Some d_one]]"
    by (simp add: identity_filled multiply_eq MAX_DIM_def entries_def upt_2)
       (simp add: float_eval)
  show "entries (Inr (filled 2 2 (\<lambda>i j. if i = 0 \<and> j = 0 then d_inf False else d_one))) =
     Inr [[Some (d_inf False), Some d_one], [Some d_one, Some d_one]]"
    by (simp add: entries_def upt_2)
  show "\<not> cell_eq (Some d_nan) (Some d_one)"
    by (simp add: cell_eq_def deq_def is_nan_def d_nan_def)
qed

text \<open>
  C8, amended: for every square matrix \<open>m\<close> of the data model, of size \<open>n\<close> with
  \<open>1 \<le> n \<le> MAX\<close>, whose entries are finite, \<open>multiply(m, identity(n))\<close> and
  \<open>multiply(identity(n), m)\<close> equal \<open>m\<close>: the same shape, and every logical entry equal as
  \<^verbatim>\<open>==\<close> compares doubles. (An entry \<open>-0.0\<close> of \<open>m\<close> comes back as \<open>+0.0\<close>, which \<^verbatim>\<open>==\<close>
  does not tell apart.)
\<close>

theorem multiply_identity:
  assumes "valid_matrix m" and "finite_entries m" and "rows m = cols m"
  shows "\<exists>e p q. identity (rows m) = Inr e \<and> multiply m e = Inr p \<and> multiply e m = Inr q \<and>
                 mat_eq p m \<and> mat_eq q m"
proof -
  define n where "n = nat (rows m)"
  let ?e = "filled (rows m) (rows m) (\<lambda>i j. if i = j then d_one else d_zero)"
  have bounds: "rows m \<le> int MAX_DIM" "cols m \<le> int MAX_DIM" and c: "nat (cols m) = n"
    using assms by (auto simp add: valid_matrix_def n_def)
  have entry: "\<exists>x. data m (i, j) = Some x \<and> is_finite x" if ij: "i < n" "j < n" for i j
  proof -
    have "data m (i, j) \<noteq> None"
      using assms ij by (simp add: valid_matrix_def n_def)
    then obtain x where "data m (i, j) = Some x"
      by auto
    moreover from this have "is_finite x"
      using assms ij by (auto simp add: finite_entries_def n_def)
    ultimately show ?thesis by simp
  qed
  define x where "x i j = (case data m (i, j) of Some v \<Rightarrow> v | None \<Rightarrow> d_zero)" for i j
  have x: "data m (i, j) = Some (x i j)" and fin: "is_finite (x i j)" if "i < n" and "j < n" for i j
    using entry [OF that] by (auto simp add: x_def)
  have right: "cell_eq (ascending_sum (\<lambda>k. lift2 dmul (data m (i, k)) (data ?e (k, j))) n) (data m (i, j))"
    if ij: "i < n" "j < n" for i j
  proof -
    have "ascending_sum (\<lambda>k. lift2 dmul (data m (i, k)) (data ?e (k, j))) n =
          ascending_sum (\<lambda>k. Some (dmul (x i k) (if k = j then d_one else d_zero))) n"
      using ij by (intro ascending_sum_cong) (simp add: x n_def)
    moreover obtain acc where
      "ascending_sum (\<lambda>k. Some (dmul (x i k) (if k = j then d_one else d_zero))) n = Some acc"
      and "deq acc (x i j)"
      using unit_sum [of j n "x i"] ij fin by blast
    ultimately show ?thesis
      using ij by (simp add: cell_eq_def x)
  qed
  have left: "cell_eq (ascending_sum (\<lambda>k. lift2 dmul (data ?e (i, k)) (data m (k, j))) n) (data m (i, j))"
    if ij: "i < n" "j < n" for i j
  proof -
    have "ascending_sum (\<lambda>k. lift2 dmul (data ?e (i, k)) (data m (k, j))) n =
          ascending_sum (\<lambda>k. Some (dmul (x k j) (if k = i then d_one else d_zero))) n"
      using ij by (intro ascending_sum_cong) (auto simp add: x n_def dmul_commute)
    moreover obtain acc where
      "ascending_sum (\<lambda>k. Some (dmul (x k j) (if k = i then d_one else d_zero))) n = Some acc"
      and "deq acc (x i j)"
      using unit_sum [of i n "\<lambda>k. x k j"] ij fin by blast
    ultimately show ?thesis
      using ij by (simp add: cell_eq_def x)
  qed
  have "identity (rows m) = Inr ?e"
    using bounds by (simp add: identity_filled)
  moreover have "\<exists>p. multiply m ?e = Inr p \<and> mat_eq p m"
    using bounds assms(3) c right
    by (simp add: multiply_eq mat_eq_def ascending_sum_foldl n_def [symmetric])
  moreover have "\<exists>q. multiply ?e m = Inr q \<and> mat_eq q m"
    using bounds assms(3) c left
    by (simp add: multiply_eq mat_eq_def ascending_sum_foldl n_def [symmetric])
  ultimately show ?thesis
    by blast
qed

theorem multiply_identity_witness:
  "\<exists>e p q. identity 2 = Inr e \<and>
     multiply (filled 2 2 (\<lambda>i j. if i < j then d_one else Double True 1024 0)) e = Inr p \<and>
     multiply e (filled 2 2 (\<lambda>i j. if i < j then d_one else Double True 1024 0)) = Inr q \<and>
     mat_eq p (filled 2 2 (\<lambda>i j. if i < j then d_one else Double True 1024 0)) \<and>
     mat_eq q (filled 2 2 (\<lambda>i j. if i < j then d_one else Double True 1024 0))"
proof -
  have "valid_matrix (filled 2 2 (\<lambda>i j. if i < j then d_one else Double True 1024 0))"
    by (rule valid_filled) (simp_all add: MAX_DIM_def)
  moreover have "finite_entries (filled 2 2 (\<lambda>i j. if i < j then d_one else Double True 1024 0))"
    by (rule finite_filled) (simp add: is_finite_def d_one_def)
  ultimately show ?thesis
    using multiply_identity [of "filled 2 2 (\<lambda>i j. if i < j then d_one else Double True 1024 0)"]
    by simp
qed

subsection \<open>C9: scaling\<close>

text \<open>
  C9, as stated: \<open>scale(m, k1 + k2) = add(scale(m, k1), scale(m, k2))\<close> for every matrix \<open>m\<close>
  and scalars \<open>k1\<close>, \<open>k2\<close>. Every operation rounds, and the two sides round differently:
  for the \<open>1 \<times> 1\<close> matrix \<open>[3]\<close>, \<open>k1 = 2^53\<close> and \<open>k2 = 1\<close> the sum \<open>k1 + k2\<close> rounds to
  \<open>2^53\<close>, so the left side is \<open>3 * 2^53 = 27021597764222976\<close>, while on the right
  \<open>3 * 2^53 + 3\<close> rounds to \<open>27021597764222980\<close>.
\<close>

theorem scale_linearity_fails:
  "scalar_multiply (filled 1 1 (\<lambda>i j. double_of_int 3))
       (dadd (double_of_int 9007199254740992) (double_of_int 1)) =
     Inr (filled 1 1 (\<lambda>i j. double_of_int 27021597764222976)) \<and>
   and_then (scalar_multiply (filled 1 1 (\<lambda>i j. double_of_int 3)) (double_of_int 9007199254740992))
     (\<lambda>a. and_then (scalar_multiply (filled 1 1 (\<lambda>i j. double_of_int 3)) (double_of_int 1)) (add a)) =
     Inr (filled 1 1 (\<lambda>i j. double_of_int 27021597764222980)) \<and>
   \<not> mat_eq (filled 1 1 (\<lambda>i j. double_of_int 27021597764222976))
             (filled 1 1 (\<lambda>i j. double_of_int 27021597764222980))"
proof (intro conjI)
  show "scalar_multiply (filled 1 1 (\<lambda>i j. double_of_int 3))
       (dadd (double_of_int 9007199254740992) (double_of_int 1)) =
     Inr (filled 1 1 (\<lambda>i j. double_of_int 27021597764222976))"
    by (simp add: scalar_multiply_eq MAX_DIM_def scale_example_values)
       (simp add: filled_def fun_eq_iff scale_example_values)
  show "and_then (scalar_multiply (filled 1 1 (\<lambda>i j. double_of_int 3)) (double_of_int 9007199254740992))
     (\<lambda>a. and_then (scalar_multiply (filled 1 1 (\<lambda>i j. double_of_int 3)) (double_of_int 1)) (add a)) =
     Inr (filled 1 1 (\<lambda>i j. double_of_int 27021597764222980))"
    by (simp add: scalar_multiply_eq add_eq MAX_DIM_def)
       (simp add: filled_def fun_eq_iff scale_example_values)
  show "\<not> mat_eq (filled 1 1 (\<lambda>i j. double_of_int 27021597764222976))
             (filled 1 1 (\<lambda>i j. double_of_int 27021597764222980))"
    by (simp add: mat_eq_def cell_eq_def scale_example_values)
qed

text \<open>
  C9, amended: for every matrix \<open>m\<close> within capacity and every scalar \<open>k\<close>, zero and
  negative values included, \<open>scale(m, k)\<close> has the shape of \<open>m\<close> with entry \<open>(i, j)\<close> equal
  to \<open>m[i,j] * k\<close>. \<open>scale(m, k1 + k2)\<close> and \<open>add(scale(m, k1), scale(m, k2))\<close> have the same
  shape; their entries are \<open>m[i,j] * (k1 + k2)\<close> and \<open>m[i,j] * k1 + m[i,j] * k2\<close>, every
  operation rounded to a double, and need not be equal.
\<close>

theorem scale_entries:
  assumes "rows m \<le> int MAX_DIM" and "cols m \<le> int MAX_DIM"
  shows "\<exists>s l a b r.
           scalar_multiply m k = Inr s \<and> rows s = rows m \<and> cols s = cols m \<and>
           (\<forall>i j. i < nat (rows m) \<and> j < nat (cols m) \<longrightarrow>
              data s (i, j) = lift2 dmul (data m (i, j)) (Some k)) \<and>
           scalar_multiply m (dadd k1 k2) = Inr l \<and>
           scalar_multiply m k1 = Inr a \<and> scalar_multiply m k2 = Inr b \<and> add a b = Inr r \<and>
           rows r = rows l \<and> cols r = cols l \<and>
           (\<forall>i j. i < nat (rows m) \<and> j < nat (cols m) \<longrightarrow>
              data l (i, j) = lift2 dmul (data m (i, j)) (Some (dadd k1 k2)) \<and>
              data r (i, j) = lift2 dadd (lift2 dmul (data m (i, j)) (Some k1))
                                         (lift2 dmul (data m (i, j)) (Some k2)))"
  using assms by (simp add: scalar_multiply_eq add_eq)

theorem scale_entries_witness:
  "\<exists>s l a b r.
     scalar_multiply (filled 1 1 (\<lambda>i j. double_of_int 3)) (double_of_int 0) = Inr s \<and>
     rows s = 1 \<and> cols s = 1 \<and> data s (0, 0) = Some (double_of_int 0) \<and>
     scalar_multiply (filled 1 1 (\<lambda>i j. double_of_int 3)) (dadd (double_of_int 1) (double_of_int 1)) = Inr l \<and>
     scalar_multiply (filled 1 1 (\<lambda>i j. double_of_int 3)) (double_of_int 1) = Inr a \<and>
     scalar_multiply (filled 1 1 (\<lambda>i j. double_of_int 3)) (double_of_int 1) = Inr b \<and>
     add a b = Inr r \<and> rows r = rows l \<and> cols r = cols l \<and>
     data l (0, 0) = Some (double_of_int 6) \<and> data r (0, 0) = Some (double_of_int 6)"
  using scale_entries [of "filled 1 1 (\<lambda>i j. double_of_int 3)" "double_of_int 0" "double_of_int 1" "double_of_int 1"]
  by (simp add: MAX_DIM_def) (simp add: float_eval)

subsection \<open>C10: the shape of a sum\<close>

text \<open>
  C10: for every pair of matrices \<open>a\<close> (within capacity) and \<open>b\<close>, also of different shapes,
  the results of \<open>add(a, b)\<close> and \<open>subtract(a, b)\<close> have the shape \<open>a.rows \<times> a.cols\<close>: the
  shape that \<open>b\<close> declares has no influence, and replacing it changes neither result.
\<close>

theorem add_subtract_shape_of_first:
  assumes "rows a \<le> int MAX_DIM" and "cols a \<le> int MAX_DIM"
  shows "\<exists>r s. add a b = Inr r \<and> subtract a b = Inr s \<and>
           rows r = rows a \<and> cols r = cols a \<and> rows s = rows a \<and> cols s = cols a \<and>
           add a (b\<lparr>rows := r', cols := c'\<rparr>) = Inr r \<and>
           subtract a (b\<lparr>rows := r', cols := c'\<rparr>) = Inr s"
  using assms by (auto simp add: add_eq subtract_eq fun_eq_iff)

theorem add_subtract_shape_of_first_witness:
  "\<exists>r s. add (filled 2 3 (\<lambda>i j. d_one)) (filled 3 2 (\<lambda>i j. d_one)) = Inr r \<and>
     subtract (filled 2 3 (\<lambda>i j. d_one)) (filled 3 2 (\<lambda>i j. d_one)) = Inr s \<and>
     rows r = 2 \<and> cols r = 3 \<and> rows s = 2 \<and> cols s = 3 \<and>
     add (filled 2 3 (\<lambda>i j. d_one)) ((filled 3 2 (\<lambda>i j. d_one))\<lparr>rows := 7, cols := 1\<rparr>) = Inr r \<and>
     subtract (filled 2 3 (\<lambda>i j. d_one)) ((filled 3 2 (\<lambda>i j. d_one))\<lparr>rows := 7, cols := 1\<rparr>) = Inr s"
  using add_subtract_shape_of_first [where a = "filled 2 3 (\<lambda>i j. d_one)"
      and b = "filled 3 2 (\<lambda>i j. d_one)" and r' = 7 and c' = 1]
  by (simp add: MAX_DIM_def)

end
